theory Spec2Isabelle
  imports Main "HOL-Library.Sublist" "HOL-Library.Multiset"
begin

section \<open>Go run-time conventions\<close>

text \<open>
  Go strings and byte slices are byte sequences; both are modelled as \<open>string\<close> (a list
  of 8-bit characters). A run-time panic is a value of type \<open>panic\<close>; a function that may
  panic returns \<open>panic + 'a\<close>. Go's \<open>int\<close> is taken to be 64 bits wide: \<open>go_int\<close> wraps an
  integer into the signed 64-bit range, as Go's addition does.
\<close>

datatype panic = SliceBoundsOutOfRange | IntnNonPositive

definition go_int :: "int \<Rightarrow> int" where
  "go_int x = (x + 2 ^ 63) mod 2 ^ 64 - 2 ^ 63"

text \<open>
  The slice expression \<open>xs[lo:hi]\<close>: it panics unless \<open>0 \<le> lo \<le> hi \<le> cap xs\<close>. Every
  upper index in the code below is bounded by the length, so the length stands for the
  capacity.
\<close>

definition slice :: "'a list \<Rightarrow> int \<Rightarrow> int \<Rightarrow> panic + 'a list" where
  "slice xs lo hi =
     (if 0 \<le> lo \<and> lo \<le> hi \<and> hi \<le> int (length xs)
      then Inr (take (nat hi - nat lo) (drop (nat lo) xs))
      else Inl SliceBoundsOutOfRange)"

text \<open>
  The builtin \<open>copy(xs[d:], xs[s:])\<close> within one slice: it copies
  \<open>min (len xs - d) (len xs - s)\<close> elements, reading all of them before writing.
\<close>

definition copy_slices :: "'a list \<Rightarrow> nat \<Rightarrow> nat \<Rightarrow> 'a list" where
  "copy_slices xs d s =
     (let n = min (length xs - d) (length xs - s)
      in take d xs @ take n (drop s xs) @ drop (d + n) xs)"

text \<open>
  \<open>sort.Search n f\<close> of the standard library: binary search for the least index in
  \<open>[0, n)\<close> at which \<open>f\<close> holds (\<open>n\<close> if there is none), written as the library's loop.
\<close>

function sort_Search_loop :: "(nat \<Rightarrow> bool) \<Rightarrow> nat \<Rightarrow> nat \<Rightarrow> nat" where
  "sort_Search_loop f i j =
     (if i < j
      then (let h = (i + j) div 2
            in if \<not> f h then sort_Search_loop f (h + 1) j else sort_Search_loop f i h)
      else i)"
  by pat_completeness auto
termination
  by (relation "measure (\<lambda>(f, i, j). j - i)") auto

declare sort_Search_loop.simps [simp del]

definition sort_Search :: "nat \<Rightarrow> (nat \<Rightarrow> bool) \<Rightarrow> nat" where
  "sort_Search n f = sort_Search_loop f 0 n"

section \<open>Host resolution (clientOptions, in state.go)\<close>

text \<open>
  Of \<open>clientOptions\<close> only the endpoint fields that \<open>restURL\<close> and \<open>realtimeURL\<close>
  hand to \<open>resolveHost\<close> are kept; \<open>defaultOptions\<close> gives the two default hosts.
\<close>

record clientOptions =
  RESTHost :: string
  RealtimeHost :: string
  Environment :: string

definition restHost :: string where
  "restHost = ''rest.ably.io''"

definition defaultOptions :: clientOptions where
  "defaultOptions = \<lparr> RESTHost = restHost, RealtimeHost = ''realtime.ably.io'', Environment = [] \<rparr>"

definition resolveHost :: "string \<Rightarrow> string \<Rightarrow> string \<Rightarrow> string" where
  "resolveHost host environment defaultHost =
     (let host1 = (if host = [] then defaultHost else host);
          host2 = (if host1 = defaultHost \<and> environment \<noteq> [] \<and> environment \<noteq> ''production''
                   then environment @ ''-'' @ host1 else host1)
      in host2)"

text \<open>The host that \<open>restURL\<close> and \<open>realtimeURL\<close> compute in their first statement.\<close>

definition restURL_host :: "clientOptions \<Rightarrow> string" where
  "restURL_host opts = resolveHost (RESTHost opts) (Environment opts) (RESTHost defaultOptions)"

definition realtimeURL_host :: "clientOptions \<Rightarrow> string" where
  "realtimeURL_host opts =
     resolveHost (RealtimeHost opts) (Environment opts) (RealtimeHost defaultOptions)"

section \<open>Pending-ack queue (state.go, pendingEmitter)\<close>

text \<open>
  Modelled from the spec: \<open>proto.ProtocolMessage\<close> is declared outside the sources. The
  spec lists \<open>msgSerial\<close> (int64) and \<open>count\<close> among the fields of the wire frame; the
  queue reads these two. \<open>Count\<close> is added to an \<open>int\<close> index in \<open>Ack\<close> and \<open>Nack\<close>, so
  it has Go's type \<open>int\<close>.
\<close>

record ProtocolMessage =
  MsgSerial :: int
  Count :: int

text \<open>
  An \<open>*ErrorInfo\<close> is identified by what it points to: \<open>errSerialSkipped\<close> is the
  package-level value of that name, \<open>OtherErrorInfo code message\<close> any other one; a nil
  pointer is \<open>None\<close>. A completion channel is identified by a number. The logger is left
  out: the queue only prints to it.
\<close>

datatype ErrorInfo = errSerialSkipped | OtherErrorInfo int string

record msgCh =
  msg :: ProtocolMessage
  ch :: nat

record pendingEmitter =
  queue :: "msgCh list"

definition newPendingEmitter :: pendingEmitter where
  "newPendingEmitter = \<lparr> queue = [] \<rparr>"

definition Len :: "pendingEmitter \<Rightarrow> nat" where
  "Len q = length (queue q)"

definition Search :: "pendingEmitter \<Rightarrow> ProtocolMessage \<Rightarrow> nat" where
  "Search q m = sort_Search (Len q) (\<lambda>i. MsgSerial (msg (queue q ! i)) \<ge> MsgSerial m)"

text \<open>
  The zero \<open>msgCh{}\<close> that \<open>Enqueue\<close> appends to grow the slice; it is overwritten by the
  \<open>copy\<close> that follows.
\<close>

definition msgCh_zero :: msgCh where
  "msgCh_zero = \<lparr> msg = \<lparr> MsgSerial = 0, Count = 0 \<rparr>, ch = 0 \<rparr>"

definition Enqueue :: "pendingEmitter \<Rightarrow> ProtocolMessage \<Rightarrow> nat \<Rightarrow> pendingEmitter" where
  "Enqueue q m c =
     (let i = Search q m
      in if i = Len q then q\<lparr>queue := queue q @ [\<lparr> msg = m, ch = c \<rparr>]\<rparr>
         else if MsgSerial (msg (queue q ! i)) = MsgSerial m then q
         else (let q1 = queue q @ [msgCh_zero];
                   q2 = copy_slices q1 (i + 1) i
               in q\<lparr>queue := q2[i := \<lparr> msg = m, ch = c \<rparr>]\<rparr>))"

text \<open>
  Modelled from the spec: \<open>unwrapNil\<close> is declared outside the sources. By the spec a
  completion receives null when the optional error of the ACK is null and that error
  otherwise: a nil \<open>*ErrorInfo\<close> becomes the nil \<open>error\<close> and any other value is kept,
  which on \<open>ErrorInfo option\<close> is the identity. The helper \<open>min\<close> on \<open>int\<close>, declared
  outside the sources as well, is the minimum.
\<close>

definition unwrapNil :: "ErrorInfo option \<Rightarrow> ErrorInfo option" where
  "unwrapNil e = e"

text \<open>
  A send \<open>sch.ch <- err\<close> is recorded as the pair of the entry and the value sent.
  \<open>Ack\<close> and \<open>Nack\<close> return the sends they made, in order, and either the queue they
  leave or the panic that stopped them; sends made before a panic stay made.
  \<open>Ack_bounds\<close> is the \<open>switch\<close> that computes \<open>nack\<close> and \<open>ack\<close>; \<open>i + 1\<close> cannot
  overflow since \<open>i\<close> is below the length, the additions of \<open>msg.Count\<close> can.
\<close>

type_synonym completion = "msgCh \<times> ErrorInfo option"

definition Ack_bounds :: "pendingEmitter \<Rightarrow> ProtocolMessage \<Rightarrow> int \<times> int" where
  "Ack_bounds q m =
     (let i = Search q m
      in if i = Len q then (int (Len q), 0)
         else if MsgSerial (msg (queue q ! i)) = MsgSerial m
           then (int i, min (go_int (int i + Count m)) (int (Len q)))
         else (int i + 1, min (go_int (int i + 1 + Count m)) (int (Len q))))"

definition Ack :: "pendingEmitter \<Rightarrow> ProtocolMessage \<Rightarrow> ErrorInfo option
    \<Rightarrow> completion list \<times> (panic + pendingEmitter)" where
  "Ack q m errInfo =
     (if Len q = 0 then ([], Inr q)
      else
        (let (nack, ack) = Ack_bounds q m;
             err0 = unwrapNil errInfo;
             err = (if err0 = None \<and> nack > 0 then Some errSerialSkipped else err0)
         in case slice (queue q) 0 nack of
              Inl p \<Rightarrow> ([], Inl p)
            | Inr nacked \<Rightarrow>
                (let sent1 = map (\<lambda>sch. (sch, err)) nacked
                 in case slice (queue q) nack ack of
                      Inl p \<Rightarrow> (sent1, Inl p)
                    | Inr acked \<Rightarrow>
                        (let sent2 = sent1 @ map (\<lambda>sch. (sch, None)) acked
                         in case slice (queue q) ack (int (Len q)) of
                              Inl p \<Rightarrow> (sent2, Inl p)
                            | Inr rest \<Rightarrow> (sent2, Inr (q\<lparr>queue := rest\<rparr>))))))"

definition Nack_bound :: "pendingEmitter \<Rightarrow> ProtocolMessage \<Rightarrow> int" where
  "Nack_bound q m =
     (let i = Search q m
      in if i = Len q then int (Len q)
         else if MsgSerial (msg (queue q ! i)) = MsgSerial m
           then min (go_int (int i + Count m)) (int (Len q))
         else min (go_int (int i + 1 + Count m)) (int (Len q)))"

definition Nack :: "pendingEmitter \<Rightarrow> ProtocolMessage \<Rightarrow> ErrorInfo option
    \<Rightarrow> completion list \<times> (panic + pendingEmitter)" where
  "Nack q m errInfo =
     (if Len q = 0 then ([], Inr q)
      else
        (let nack = Nack_bound q m;
             err = unwrapNil errInfo
         in case slice (queue q) 0 nack of
              Inl p \<Rightarrow> ([], Inl p)
            | Inr nacked \<Rightarrow>
                (let sent = map (\<lambda>sch. (sch, err)) nacked
                 in case slice (queue q) nack (int (Len q)) of
                      Inl p \<Rightarrow> (sent, Inl p)
                    | Inr rest \<Rightarrow> (sent, Inr (q\<lparr>queue := rest\<rparr>)))))"

text \<open>
  The invariant of the queue: the serials of its entries, in queue order, increase
  strictly.
\<close>

definition serials :: "pendingEmitter \<Rightarrow> int list" where
  "serials q = map (\<lambda>e. MsgSerial (msg e)) (queue q)"

definition queue_sorted :: "pendingEmitter \<Rightarrow> bool" where
  "queue_sorted q = sorted_wrt (<) (serials q)"

text \<open>
  Sequences of operations on one queue. A panic ends the run; the queue is then the one
  before the panicking call, since \<open>Ack\<close> and \<open>Nack\<close> assign \<open>q.queue\<close> last. A run
  returns the queue it ends with and the panic that ended it, if any.
\<close>

datatype queue_op =
    OpEnqueue ProtocolMessage nat
  | OpAck ProtocolMessage "ErrorInfo option"
  | OpNack ProtocolMessage "ErrorInfo option"

fun apply_op :: "queue_op \<Rightarrow> pendingEmitter \<Rightarrow> panic + pendingEmitter" where
  "apply_op (OpEnqueue m c) q = Inr (Enqueue q m c)"
| "apply_op (OpAck m e) q = snd (Ack q m e)"
| "apply_op (OpNack m e) q = snd (Nack q m e)"

fun run_ops :: "queue_op list \<Rightarrow> pendingEmitter \<Rightarrow> pendingEmitter \<times> panic option" where
  "run_ops [] q = (q, None)"
| "run_ops (x # xs) q =
     (case apply_op x q of Inl p \<Rightarrow> (q, Some p) | Inr q' \<Rightarrow> run_ops xs q')"

section \<open>Shuffling host lists (internal/ablyutil/strings.go)\<close>

text \<open>
  \<open>Shuffle\<close> seeds a generator from the clock and draws one number per element. The
  generator is a parameter here: \<open>draw k\<close> is the raw value behind the \<open>k\<close>-th call of
  \<open>r.Intn\<close>, which panics for a bound \<open>n \<le> 0\<close> and otherwise returns a number in
  \<open>[0, n)\<close>; every sequence of such numbers arises from some \<open>draw\<close>.
\<close>

definition Intn :: "(nat \<Rightarrow> nat) \<Rightarrow> nat \<Rightarrow> int \<Rightarrow> panic + nat" where
  "Intn draw k n = (if n \<le> 0 then Inl IntnNonPositive else Inr (draw k mod nat n))"

function Shuffle_loop :: "(nat \<Rightarrow> nat) \<Rightarrow> nat \<Rightarrow> string list \<Rightarrow> panic + string list" where
  "Shuffle_loop draw i l =
     (if i < length l
      then (case Intn draw i (int (length l) - 1) of
              Inl p \<Rightarrow> Inl p
            | Inr n \<Rightarrow> Shuffle_loop draw (i + 1) (l[i := l ! n, n := l ! i]))
      else Inr l)"
  by pat_completeness auto
termination
  by (relation "measure (\<lambda>(draw, i, l). length l - i)") auto

declare Shuffle_loop.simps [simp del]

definition Shuffle :: "(nat \<Rightarrow> nat) \<Rightarrow> string list \<Rightarrow> panic + string list" where
  "Shuffle draw l = Shuffle_loop draw 0 l"

section \<open>Standard-library functions the package calls\<close>

text \<open>
  These model functions of Go's standard library, not code of the package. The string
  and \<open>path\<close> functions are used by the package's functions directly. UTF-8
  validation and base64 are written out so that the codec, which takes its library
  functions as a parameter (see \<open>stdlib\<close> below), can be run on concrete inputs.
\<close>

subsection \<open>strings.Split and strings.Join with the separator /\<close>

text \<open>
  \<open>strings.Split s "/"\<close> cuts \<open>s\<close> at every slash and always returns at least one
  element; \<open>strings.Join xs "/"\<close> puts the slashes back.
\<close>

primrec strings_Split :: "string \<Rightarrow> string list" where
  "strings_Split [] = [[]]"
| "strings_Split (c # cs) =
     (if c = CHR ''/'' then [] # strings_Split cs
      else (case strings_Split cs of [] \<Rightarrow> [[c]] | x # xs \<Rightarrow> (c # x) # xs))"

fun strings_Join :: "string list \<Rightarrow> string" where
  "strings_Join [] = []"
| "strings_Join [x] = x"
| "strings_Join (x # y # ys) = x @ ''/'' @ strings_Join (y # ys)"

subsection \<open>unicode/utf8.ValidString\<close>

text \<open>
  A string is valid UTF-8 when it is a sequence of well-formed encodings: no stray
  continuation bytes, no overlong forms, no surrogates, nothing above U+10FFFF.
\<close>

fun utf8_valid :: "nat list \<Rightarrow> bool" where
  "utf8_valid [] = True"
| "utf8_valid (b # bs) =
     (if b < 128 then utf8_valid bs
      else if 194 \<le> b \<and> b \<le> 223 then
        (case bs of
           c1 # r \<Rightarrow> 128 \<le> c1 \<and> c1 \<le> 191 \<and> utf8_valid r
         | _ \<Rightarrow> False)
      else if 224 \<le> b \<and> b \<le> 239 then
        (case bs of
           c1 # c2 # r \<Rightarrow>
             (if b = 224 then 160 else 128) \<le> c1 \<and> c1 \<le> (if b = 237 then 159 else 191)
             \<and> 128 \<le> c2 \<and> c2 \<le> 191 \<and> utf8_valid r
         | _ \<Rightarrow> False)
      else if 240 \<le> b \<and> b \<le> 244 then
        (case bs of
           c1 # c2 # c3 # r \<Rightarrow>
             (if b = 240 then 144 else 128) \<le> c1 \<and> c1 \<le> (if b = 244 then 143 else 191)
             \<and> 128 \<le> c2 \<and> c2 \<le> 191 \<and> 128 \<le> c3 \<and> c3 \<le> 191 \<and> utf8_valid r
         | _ \<Rightarrow> False)
      else False)"

definition go_utf8_ValidString :: "string \<Rightarrow> bool" where
  "go_utf8_ValidString s = utf8_valid (map of_char s)"

subsection \<open>encoding/base64.StdEncoding\<close>

text \<open>
  The standard alphabet with \<open>=\<close> padding. \<open>DecodeString\<close> skips carriage returns and
  line feeds, wants whole quanta of four characters, and accepts padding only at the
  end of the last quantum.
\<close>

definition b64_alphabet :: string where
  "b64_alphabet = ''ABCDEFGHIJKLMNOPQRSTUVWXYZabcdefghijklmnopqrstuvwxyz0123456789+/''"

definition b64_char :: "nat \<Rightarrow> char" where
  "b64_char n = b64_alphabet ! n"

definition b64_value :: "char \<Rightarrow> nat option" where
  "b64_value c = map_of (zip b64_alphabet [0..<64]) c"

fun b64_encode :: "nat list \<Rightarrow> string" where
  "b64_encode [] = []"
| "b64_encode [a] = [b64_char (a div 4), b64_char (a mod 4 * 16), CHR ''='', CHR ''='']"
| "b64_encode [a, b] =
     [b64_char (a div 4), b64_char (a mod 4 * 16 + b div 16), b64_char (b mod 16 * 4), CHR ''='']"
| "b64_encode (a # b # c # r) =
     b64_char (a div 4) # b64_char (a mod 4 * 16 + b div 16)
       # b64_char (b mod 16 * 4 + c div 64) # b64_char (c mod 64) # b64_encode r"

fun b64_decode :: "string \<Rightarrow> string + nat list" where
  "b64_decode [] = Inr []"
| "b64_decode [c0, c1, c2, c3] =
     (case (b64_value c0, b64_value c1) of
        (Some v0, Some v1) \<Rightarrow>
          (if c2 = CHR ''='' \<and> c3 = CHR ''='' then Inr [v0 * 4 + v1 div 16]
           else (case b64_value c2 of
                   None \<Rightarrow> Inl ''illegal base64 data''
                 | Some v2 \<Rightarrow>
                     (if c3 = CHR ''='' then Inr [v0 * 4 + v1 div 16, v1 mod 16 * 16 + v2 div 4]
                      else (case b64_value c3 of
                              None \<Rightarrow> Inl ''illegal base64 data''
                            | Some v3 \<Rightarrow>
                                Inr [v0 * 4 + v1 div 16, v1 mod 16 * 16 + v2 div 4,
                                     v2 mod 4 * 64 + v3]))))
      | _ \<Rightarrow> Inl ''illegal base64 data'')"
| "b64_decode (c0 # c1 # c2 # c3 # r) =
     (case (b64_value c0, b64_value c1, b64_value c2, b64_value c3) of
        (Some v0, Some v1, Some v2, Some v3) \<Rightarrow>
          (case b64_decode r of
             Inl e \<Rightarrow> Inl e
           | Inr bs \<Rightarrow> Inr ([v0 * 4 + v1 div 16, v1 mod 16 * 16 + v2 div 4, v2 mod 4 * 64 + v3] @ bs))
      | _ \<Rightarrow> Inl ''illegal base64 data'')"
| "b64_decode _ = Inl ''illegal base64 data''"

definition go_base64_EncodeToString :: "string \<Rightarrow> string" where
  "go_base64_EncodeToString src = b64_encode (map of_char src)"

definition go_base64_DecodeString :: "string \<Rightarrow> string + string" where
  "go_base64_DecodeString s =
     (case b64_decode (filter (\<lambda>c. c \<noteq> CHR 0x0D \<and> c \<noteq> CHR 0x0A) s) of
        Inl e \<Rightarrow> Inl e
      | Inr bs \<Rightarrow> Inr (map char_of bs))"

subsection \<open>path.Clean, path.Join, path.Dir and strings.IndexRune\<close>

text \<open>
  \<open>path.Clean\<close> as the library writes it: one pass over the path with an output buffer
  and the mark \<open>dotdot\<close> below which \<open>..\<close> cannot back up. The unread rest of the path
  stands for the read index. \<open>path.Dir\<close> cleans what precedes the last slash, that slash
  included.
\<close>

fun lazybuf_backtrack :: "string \<Rightarrow> nat \<Rightarrow> nat \<Rightarrow> nat" where
  "lazybuf_backtrack out dotdot 0 = 0"
| "lazybuf_backtrack out dotdot (Suc w) =
     (if Suc w > dotdot \<and> out ! Suc w \<noteq> CHR ''/'' then lazybuf_backtrack out dotdot w else Suc w)"

function path_Clean_loop :: "bool \<Rightarrow> string \<Rightarrow> string \<Rightarrow> nat \<Rightarrow> string" where
  "path_Clean_loop rooted [] out dotdot = out"
| "path_Clean_loop rooted (c # cs) out dotdot =
     (if c = CHR ''/'' then path_Clean_loop rooted cs out dotdot
      else if c = CHR ''.'' \<and> (cs = [] \<or> hd cs = CHR ''/'') then path_Clean_loop rooted cs out dotdot
      else if c = CHR ''.'' \<and> hd cs = CHR ''.'' \<and> (tl cs = [] \<or> hd (tl cs) = CHR ''/'') then
        (if length out > dotdot
         then path_Clean_loop rooted (tl cs)
                (take (lazybuf_backtrack out dotdot (length out - 1)) out) dotdot
         else if \<not> rooted
         then (let out1 = (if length out > 0 then out @ ''/'' else out) @ ''..''
               in path_Clean_loop rooted (tl cs) out1 (length out1))
         else path_Clean_loop rooted (tl cs) out dotdot)
      else
        (let out1 = (if rooted \<and> length out \<noteq> 1 \<or> \<not> rooted \<and> length out \<noteq> 0
                     then out @ ''/'' else out)
         in path_Clean_loop rooted (dropWhile (\<lambda>x. x \<noteq> CHR ''/'') cs)
              (out1 @ c # takeWhile (\<lambda>x. x \<noteq> CHR ''/'') cs) dotdot))"
  by pat_completeness auto
termination
  by (relation "measure (\<lambda>(rooted, rest, out, dotdot). length rest)")
     (auto simp: le_imp_less_Suc length_dropWhile_le)

definition path_Clean :: "string \<Rightarrow> string" where
  "path_Clean path =
     (if path = [] then ''.''
      else (let rooted = (hd path = CHR ''/'');
                out = (if rooted then path_Clean_loop True (tl path) ''/'' 1
                       else path_Clean_loop False path [] 0)
            in if out = [] then ''.'' else out))"

definition path_Join_buf :: "string list \<Rightarrow> string" where
  "path_Join_buf elem =
     foldl (\<lambda>buf e. if length buf > 0 \<or> e \<noteq> []
                      then (if length buf > 0 then buf @ ''/'' else buf) @ e
                      else buf) [] elem"

definition path_Join :: "string list \<Rightarrow> string" where
  "path_Join elem =
     (if sum_list (map length elem) = 0 then []
      else path_Clean (path_Join_buf elem))"

definition path_Split_dir :: "string \<Rightarrow> string" where
  "path_Split_dir path = rev (dropWhile (\<lambda>x. x \<noteq> CHR ''/'') (rev path))"

definition path_Dir :: "string \<Rightarrow> string" where
  "path_Dir path = path_Clean (path_Split_dir path)"

definition strings_IndexRune :: "string \<Rightarrow> char \<Rightarrow> int" where
  "strings_IndexRune s c = (if c \<in> set s then int (length (takeWhile (\<lambda>x. x \<noteq> c) s)) else - 1)"

section \<open>Message codec (proto_message.go)\<close>

text \<open>
  \<open>Message.Data\<close> is an \<open>interface{}\<close>: nil, a string, a byte slice, or any other Go
  value, of a type \<open>'v\<close> that is left open. \<open>Extras\<close> is a map the codec never reads; it
  is kept as an association list.

  The codec calls \<open>utf8.ValidString\<close>, the base64 encoder and decoder, \<open>json.Marshal\<close>
  and \<open>json.Unmarshal\<close> (into an \<open>interface{}\<close>, so JSON null gives nil). They are
  gathered in the record \<open>stdlib\<close>, a parameter of every codec function: what is proved
  holds for every implementation of them. A library error is its message.
\<close>

datatype 'v data = GoString string | GoBytes string | GoValue 'v

record 'v Message =
  ID :: string
  ClientID :: string
  ConnectionID :: string
  Name :: string
  Data :: "'v data option"
  Encoding :: string
  Timestamp :: int
  Extras :: "(string \<times> 'v) list"

record 'v stdlib =
  utf8_ValidString :: "string \<Rightarrow> bool"
  base64_EncodeToString :: "string \<Rightarrow> string"
  base64_DecodeString :: "string \<Rightarrow> string + string"
  json_Marshal :: "'v \<Rightarrow> string + string"
  json_Unmarshal :: "string \<Rightarrow> string + 'v data option"

text \<open>
  Modelled from the spec: the interface \<open>channelCipher\<close> is declared outside the
  sources. The codec calls its methods \<open>Encrypt\<close> and \<open>Decrypt\<close>, which return bytes
  or an error, and \<open>GetAlgorithm\<close>, whose result the spec gives the form
  \<open>cipher+<alg>-<len>-<mode>\<close>. The nil cipher is \<open>None\<close>.
\<close>

record channelCipher =
  Encrypt :: "string \<Rightarrow> string + string"
  Decrypt :: "string \<Rightarrow> string + string"
  GetAlgorithm :: string

text \<open>
  \<open>json.NewDecoder(bytes.NewReader(b)).Token()\<close> skips JSON white space and reads one
  token. The codec only asks whether that token is the delimiter \<open>[\<close> or \<open>{\<close>, which it
  is exactly when the first byte after the white space is; \<open>NoDelim\<close> stands for every
  other outcome (another token, or none with an error).
\<close>

datatype json_Token = Delim char | NoDelim

definition json_space :: "char \<Rightarrow> bool" where
  "json_space c = (c = CHR '' '' \<or> c = CHR 0x09 \<or> c = CHR 0x0D \<or> c = CHR 0x0A)"

definition json_Decoder_Token :: "string \<Rightarrow> json_Token" where
  "json_Decoder_Token b =
     (case dropWhile json_space b of
        [] \<Rightarrow> NoDelim
      | c # _ \<Rightarrow> if c = CHR ''['' \<or> c = CHR ''{'' then Delim c else NoDelim)"

definition encUTF8 :: string where "encUTF8 = ''utf-8''"
definition encJSON :: string where "encJSON = ''json''"
definition encBase64 :: string where "encBase64 = ''base64''"
definition encCipher :: string where "encCipher = ''cipher''"

text \<open>
  The errors the codec returns, one constructor per \<open>fmt.Errorf\<close> of the source;
  \<open>PanicCoerceBytes\<close> is the \<open>panic(err)\<close> of \<open>withEncodedData\<close>.
\<close>

datatype codec_error =
    ErrMarshal string
  | ErrNotObjectOrArray
  | ErrEncrypt string
  | PanicCoerceBytes
  | ErrCoerceString
  | ErrCoerceBytes
  | ErrBase64 string
  | ErrUnmarshal string
  | ErrNoCipher string
  | ErrDecrypt string
  | ErrUnknownEncoding string

definition coerceString :: "'v data option \<Rightarrow> codec_error + string" where
  "coerceString i =
     (case i of
        Some (GoBytes v) \<Rightarrow> Inr v
      | Some (GoString v) \<Rightarrow> Inr v
      | _ \<Rightarrow> Inl ErrCoerceString)"

definition coerceBytes :: "'v data option \<Rightarrow> codec_error + string" where
  "coerceBytes i =
     (case i of
        Some (GoBytes v) \<Rightarrow> Inr v
      | Some (GoString v) \<Rightarrow> Inr v
      | _ \<Rightarrow> Inl ErrCoerceBytes)"

definition mergeEncoding :: "string \<Rightarrow> string \<Rightarrow> string" where
  "mergeEncoding a b = (if a = [] then b else a @ ''/'' @ b)"

text \<open>
  \<open>withEncodedData\<close> in three parts, in source order: the nil check, the conversion of
  an invalid string to bytes with the type switch (\<open>encode_payload\<close>), and the encryption
  that follows for a non-nil cipher (\<open>encrypt_payload\<close>). On an error the source returns
  the zero \<open>Message{}\<close> with it: \<open>Inl\<close> of the error.
\<close>

definition encode_payload :: "'v stdlib \<Rightarrow> 'v Message \<Rightarrow> codec_error + 'v Message" where
  "encode_payload L m0 =
     (let m = (case Data m0 of
                 Some (GoString d) \<Rightarrow>
                   if \<not> utf8_ValidString L d then m0\<lparr>Data := Some (GoBytes d)\<rparr> else m0
               | _ \<Rightarrow> m0)
      in case Data m of
           Some (GoString d) \<Rightarrow> Inr m
         | Some (GoBytes d) \<Rightarrow>
             Inr (m\<lparr>Data := Some (GoString (base64_EncodeToString L d)),
                    Encoding := mergeEncoding (Encoding m) encBase64\<rparr>)
         | Some (GoValue d) \<Rightarrow>
             (case json_Marshal L d of
                Inl err \<Rightarrow> Inl (ErrMarshal err)
              | Inr b \<Rightarrow>
                  (let token = json_Decoder_Token b
                   in if token \<noteq> Delim CHR ''['' \<and> token \<noteq> Delim CHR ''{''
                      then Inl ErrNotObjectOrArray
                      else Inr (m\<lparr>Data := Some (GoString b),
                                  Encoding := mergeEncoding (Encoding m) encJSON\<rparr>)))
         | None \<Rightarrow> Inr m)"

definition encrypt_payload :: "'v stdlib \<Rightarrow> channelCipher \<Rightarrow> 'v Message \<Rightarrow> codec_error + 'v Message" where
  "encrypt_payload L cipher m =
     (case coerceBytes (Data m) of
        Inl err \<Rightarrow> Inl PanicCoerceBytes
      | Inr bs \<Rightarrow>
          (case Encrypt cipher bs of
             Inl err \<Rightarrow> Inl (ErrEncrypt err)
           | Inr e \<Rightarrow>
               (let m1 = (case Data m of
                            Some (GoString s) \<Rightarrow>
                              if utf8_ValidString L s
                              then m\<lparr>Encoding := mergeEncoding (Encoding m) encUTF8\<rparr> else m
                          | _ \<Rightarrow> m);
                    m2 = m1\<lparr>Data := Some (GoString (base64_EncodeToString L e))\<rparr>;
                    m3 = m2\<lparr>Encoding := mergeEncoding (Encoding m2) (GetAlgorithm cipher)\<rparr>;
                    m4 = m3\<lparr>Encoding := mergeEncoding (Encoding m3) encBase64\<rparr>
                in Inr m4)))"

definition withEncodedData :: "'v stdlib \<Rightarrow> channelCipher option \<Rightarrow> 'v Message \<Rightarrow> codec_error + 'v Message" where
  "withEncodedData L cipher m =
     (if Data m = None then Inr m
      else (case encode_payload L m of
              Inl err \<Rightarrow> Inl err
            | Inr m1 \<Rightarrow>
                (case cipher of
                   None \<Rightarrow> Inr m1
                 | Some c \<Rightarrow> encrypt_payload L c m1)))"

text \<open>
  \<open>withDecodedData\<close> returns a message also when it fails: the message as decoded so
  far. \<open>decode_token\<close> is the \<open>switch\<close> on one token, giving the new \<open>Data\<close> or the
  error; \<open>decode_loop\<close> is the \<open>for\<close> loop, taking tokens from the right.
\<close>

definition decode_token :: "'v stdlib \<Rightarrow> channelCipher option \<Rightarrow> string \<Rightarrow> 'v data option
    \<Rightarrow> codec_error + 'v data option" where
  "decode_token L cipher encoding dat =
     (if encoding = encBase64 then
        (case coerceString dat of
           Inl err \<Rightarrow> Inl err
         | Inr d \<Rightarrow>
             (case base64_DecodeString L d of
                Inl err \<Rightarrow> Inl (ErrBase64 err)
              | Inr bs \<Rightarrow> Inr (Some (GoBytes bs))))
      else if encoding = encUTF8 then
        (case coerceString dat of
           Inl err \<Rightarrow> Inl err
         | Inr d \<Rightarrow> Inr (Some (GoString d)))
      else if encoding = encJSON then
        (case coerceBytes dat of
           Inl err \<Rightarrow> Inl err
         | Inr d \<Rightarrow>
             (case json_Unmarshal L d of
                Inl err \<Rightarrow> Inl (ErrUnmarshal err)
              | Inr result \<Rightarrow> Inr result))
      else if prefix encCipher encoding then
        (case cipher of
           None \<Rightarrow> Inl (ErrNoCipher encoding)
         | Some c \<Rightarrow>
             (case coerceBytes dat of
                Inl err \<Rightarrow> Inl err
              | Inr d \<Rightarrow>
                  (case Decrypt c d of
                     Inl err \<Rightarrow> Inl (ErrDecrypt err)
                   | Inr d' \<Rightarrow> Inr (Some (GoBytes d')))))
      else Inl (ErrUnknownEncoding encoding))"

function decode_loop :: "'v stdlib \<Rightarrow> channelCipher option \<Rightarrow> string list \<Rightarrow> 'v Message
    \<Rightarrow> 'v Message \<times> codec_error option" where
  "decode_loop L cipher encodings m =
     (if length encodings > 0
      then (let encoding = last encodings;
                encodings' = butlast encodings
            in case decode_token L cipher encoding (Data m) of
                 Inl err \<Rightarrow> (m, Some err)
               | Inr d \<Rightarrow>
                   decode_loop L cipher encodings'
                     (m\<lparr>Data := d, Encoding := strings_Join encodings'\<rparr>))
      else (m, None))"
  by pat_completeness auto
termination
  by (relation "measure (\<lambda>(L, cipher, encodings, m). length encodings)") auto

declare decode_loop.simps [simp del]

definition withDecodedData :: "'v stdlib \<Rightarrow> channelCipher option \<Rightarrow> 'v Message
    \<Rightarrow> 'v Message \<times> codec_error option" where
  "withDecodedData L cipher m =
     (if Data m = None \<or> Encoding m = [] then (m, None)
      else decode_loop L cipher (strings_Split (Encoding m)) m)"




section \<open>Paginated results (in hosts_test.go)\<close>

subsection \<open>The pagination link format\<close>

text \<open>
  \<open>relLinkRegexp\<close> is \<^verbatim>\<open><(?P<url>[^>]+)>; rel="(?P<rel>[^"]+)"\<close>.
  \<open>FindStringSubmatch\<close> returns the leftmost match. From a given \<open><\<close> the match is
  forced: the url runs to the next \<open>>\<close>, the rel to the next double quote.
  The result here is the pair of the two groups.
\<close>

definition strip_prefix :: "string \<Rightarrow> string \<Rightarrow> string option" where
  "strip_prefix p s = (if prefix p s then Some (drop (length p) s) else None)"

definition relLink_match_here :: "string \<Rightarrow> (string \<times> string) option" where
  "relLink_match_here s =
     (let url = takeWhile (\<lambda>x. x \<noteq> CHR ''>'') s;
          rest = dropWhile (\<lambda>x. x \<noteq> CHR ''>'') s
      in if url = [] then None
         else (case strip_prefix (''>; rel='' @ [CHR 0x22]) rest of
                 None \<Rightarrow> None
               | Some rest2 \<Rightarrow>
                   (let rel = takeWhile (\<lambda>x. x \<noteq> CHR 0x22) rest2;
                        rest3 = dropWhile (\<lambda>x. x \<noteq> CHR 0x22) rest2
                    in if rel = [] \<or> rest3 = [] then None else Some (url, rel))))"

fun relLinkRegexp_FindStringSubmatch :: "string \<Rightarrow> (string \<times> string) option" where
  "relLinkRegexp_FindStringSubmatch [] = None"
| "relLinkRegexp_FindStringSubmatch (c # cs) =
     (if c = CHR ''<''
      then (case relLink_match_here cs of
              Some m \<Rightarrow> Some m
            | None \<Rightarrow> relLinkRegexp_FindStringSubmatch cs)
      else relLinkRegexp_FindStringSubmatch cs)"

subsection \<open>PaginatedResult\<close>

text \<open>
  Of a \<open>PaginatedResult\<close>, the path it was loaded from (with its query string) and the
  \<open>Link\<close> headers of the response. \<open>paginationHeaders\<close> maps each rel to its url, a
  later header replacing an earlier one.
\<close>

record PaginatedResult =
  path :: string
  links :: "string list"

definition paginationHeaders :: "PaginatedResult \<Rightarrow> (string \<rightharpoonup> string)" where
  "paginationHeaders p =
     foldl (\<lambda>headers link.
              case relLinkRegexp_FindStringSubmatch link of
                None \<Rightarrow> headers
              | Some (url, rel) \<Rightarrow> headers(rel \<mapsto> url))
           Map.empty (links p)"

definition buildPath :: "string \<Rightarrow> string \<Rightarrow> string" where
  "buildPath origPath newRelativePath =
     (let i = strings_IndexRune origPath CHR ''?'';
          origPath1 = (if i \<noteq> - 1 then take (nat i) origPath else origPath)
      in path_Join [path_Dir origPath1, newRelativePath])"

text \<open>The path that \<open>Next\<close> requests: none without a \<open>next\<close> link.\<close>

definition Next_path :: "PaginatedResult \<Rightarrow> string option" where
  "Next_path p =
     (case paginationHeaders p ''next'' of
        None \<Rightarrow> None
      | Some nextPath \<Rightarrow> Some (buildPath (path p) nextPath))"

subsection \<open>PaginatedResultNew\<close>

text \<open>
  The HTTP query is a parameter: it maps the link requested to an error or a response,
  of which the \<open>Link\<close> headers and the body are kept. The fields \<open>res\<close>, \<open>err\<close> and
  \<open>first\<close> of the source are \<open>pres\<close>, \<open>perr\<close> and \<open>pfirst\<close> here, the fields \<open>path\<close>
  and \<open>params\<close> of a request \<open>req_path\<close> and \<open>req_params\<close>. \<open>url_String\<close> is
  \<open>(&url.URL{Path, RawQuery}).String()\<close> for a path that needs no escaping, the
  request's parameters being given in encoded form.
\<close>

record http_Response =
  Header_Link :: "string list"
  Body :: string

record paginatedRequestNew =
  req_path :: string
  req_params :: string

record PaginatedResultNew =
  basePath :: string
  nextLink :: string
  firstLink :: string
  pres :: "http_Response option"
  perr :: "string option"
  pfirst :: bool

type_synonym queryFunc = "string \<Rightarrow> string + http_Response"

definition goTo_links :: "PaginatedResultNew \<Rightarrow> string list \<Rightarrow> PaginatedResultNew" where
  "goTo_links p0 rawLinks =
     foldl (\<lambda>p rawLink.
              case relLinkRegexp_FindStringSubmatch rawLink of
                None \<Rightarrow> p
              | Some (relPath, rel) \<Rightarrow>
                  (let path = path_Join [basePath p, relPath]
                   in if rel = ''first'' then p\<lparr>firstLink := path\<rparr>
                      else if rel = ''next'' then p\<lparr>nextLink := path\<rparr>
                      else p))
           p0 rawLinks"

definition goTo :: "queryFunc \<Rightarrow> PaginatedResultNew \<Rightarrow> string \<Rightarrow> PaginatedResultNew \<times> string option" where
  "goTo query p link =
     (case query link of
        Inl e \<Rightarrow> (p\<lparr>pres := None\<rparr>, Some e)
      | Inr r \<Rightarrow> (goTo_links (p\<lparr>pres := Some r, nextLink := []\<rparr>) (Header_Link r), None))"

definition First :: "queryFunc \<Rightarrow> PaginatedResultNew \<Rightarrow> PaginatedResultNew \<times> string option" where
  "First query p = goTo query (p\<lparr>pfirst := True\<rparr>) (firstLink p)"

definition url_String :: "string \<Rightarrow> string \<Rightarrow> string" where
  "url_String upath rawQuery = upath @ (if rawQuery = [] then [] else ''?'' @ rawQuery)"

definition load :: "queryFunc \<Rightarrow> PaginatedResultNew \<Rightarrow> paginatedRequestNew
    \<Rightarrow> PaginatedResultNew \<times> string option" where
  "load query p r =
     First query (p\<lparr>basePath := path_Dir (req_path r),
                     firstLink := url_String (req_path r) (req_params r)\<rparr>)"

section \<open>Concrete instances\<close>

text \<open>
  Instances on which the functions above are run. \<open>go_stdlib\<close> takes UTF-8 validation
  and base64 from the models above; values other than strings and byte slices are
  represented by their compact JSON text, so that marshalling returns the text and
  unmarshalling the value it denotes. \<open>rev_cipher\<close> is a stand-in cipher that reverses
  the bytes. \<open>two_directories\<close> is a server whose first page links to a page in another
  directory. \<open>queued s c\<close> is a queue entry for a message with serial \<open>s\<close> and the
  completion channel \<open>c\<close>.
\<close>

definition queued :: "int \<Rightarrow> nat \<Rightarrow> msgCh" where
  "queued s c = \<lparr> msg = \<lparr> MsgSerial = s, Count = 1 \<rparr>, ch = c \<rparr>"

definition go_stdlib :: "string stdlib" where
  "go_stdlib = \<lparr> utf8_ValidString = go_utf8_ValidString,
      base64_EncodeToString = go_base64_EncodeToString,
      base64_DecodeString = go_base64_DecodeString,
      json_Marshal = (\<lambda>v. Inr v),
      json_Unmarshal = (\<lambda>b. Inr (Some (GoValue b))) \<rparr>"

definition rev_cipher :: channelCipher where
  "rev_cipher = \<lparr> Encrypt = (\<lambda>bs. Inr (rev bs)), Decrypt = (\<lambda>bs. Inr (rev bs)),
      GetAlgorithm = ''cipher+aes-128-cbc'' \<rparr>"

definition message_of :: "string data option \<Rightarrow> string \<Rightarrow> string Message" where
  "message_of d enc = \<lparr> ID = ''id'', ClientID = [], ConnectionID = [], Name = ''event'', Data = d,
     Encoding = enc, Timestamp = 0, Extras = [] \<rparr>"


definition link_header :: "string \<Rightarrow> string \<Rightarrow> string" where
  "link_header url rel = ''<'' @ url @ ''>; rel='' @ [CHR 0x22] @ rel @ [CHR 0x22]"

definition zero_PaginatedResultNew :: PaginatedResultNew where
  "zero_PaginatedResultNew = \<lparr> basePath = [], nextLink = [], firstLink = [], pres = None, perr = None, pfirst = False \<rparr>"

definition two_directories :: queryFunc where
  "two_directories link =
     (if link = ''/channels/a/messages?limit=1''
      then Inr \<lparr> Header_Link = [link_header ''./messages?limit=1'' ''first'',
                                link_header ''../b/messages?page=2'' ''next''], Body = ''[]'' \<rparr>
      else if link = ''/channels/b/messages?page=2''
      then Inr \<lparr> Header_Link = [link_header ''./messages?page=3'' ''next''], Body = ''[]'' \<rparr>
      else Inl ''not found'')"

section \<open>Host resolution: properties\<close>

text \<open>
  C7 (as amended). With a non-empty environment other than \<open>production\<close> and a host that
  is the default host (or left empty, which selects the default), \<open>resolveHost\<close> returns
  \<open>environment-defaultHost\<close>; with the environment \<open>production\<close> it returns the default
  host itself; a non-empty host different from the default is returned unchanged, for
  every environment.
\<close>

theorem resolveHost_environment:
  "(environment \<noteq> [] \<and> environment \<noteq> ''production'' \<and> (host = defaultHost \<or> host = [])
      \<longrightarrow> resolveHost host environment defaultHost = environment @ ''-'' @ defaultHost)
   \<and> ((host = defaultHost \<or> host = [])
      \<longrightarrow> resolveHost host ''production'' defaultHost = defaultHost)
   \<and> (host \<noteq> [] \<and> host \<noteq> defaultHost
      \<longrightarrow> resolveHost host environment defaultHost = host)"
  by (simp add: resolveHost_def)

theorem resolveHost_environment_witness:
  "resolveHost ''rest.ably.io'' ''staging'' ''rest.ably.io'' = ''staging-rest.ably.io''
   \<and> resolveHost [] ''production'' ''rest.ably.io'' = ''rest.ably.io''
   \<and> resolveHost ''example.com'' ''staging'' ''rest.ably.io'' = ''example.com''"
  using resolveHost_environment [of "''staging''" "''rest.ably.io''" "''rest.ably.io''"]
    resolveHost_environment [of "''staging''" "[]" "''rest.ably.io''"]
    resolveHost_environment [of "''staging''" "''example.com''" "''rest.ably.io''"]
  by simp

text \<open>
  C7 as stated fails for the environment \<open>production\<close>: it is non-empty and the REST host
  is the default, yet the host is not prefixed.
\<close>

theorem resolveHost_production_counterexample:
  "restURL_host \<lparr> RESTHost = ''rest.ably.io'', RealtimeHost = [], Environment = ''production'' \<rparr>
     = ''rest.ably.io''
   \<and> restURL_host \<lparr> RESTHost = ''rest.ably.io'', RealtimeHost = [], Environment = ''production'' \<rparr>
     \<noteq> ''production-rest.ably.io''"
  by (simp add: restURL_host_def resolveHost_def defaultOptions_def restHost_def)

section \<open>Pending-ack queue: properties\<close>

subsection \<open>Binary search on a sorted queue\<close>

lemma go_int_id: "- (2 ^ 63) \<le> x \<Longrightarrow> x < 2 ^ 63 \<Longrightarrow> go_int x = x"
  unfolding go_int_def by (simp add: mod_pos_pos_trivial)



lemma sort_Search_loop_correct:
  assumes mono: "\<forall>a b. a \<le> b \<and> b < n \<and> f a \<longrightarrow> f b"
  shows "i \<le> j \<Longrightarrow> j \<le> n \<Longrightarrow> \<forall>k<i. \<not> f k \<Longrightarrow> \<forall>k. j \<le> k \<and> k < n \<longrightarrow> f k \<Longrightarrow>
       i \<le> sort_Search_loop f i j \<and> sort_Search_loop f i j \<le> j
       \<and> (\<forall>k<sort_Search_loop f i j. \<not> f k)
       \<and> (\<forall>k. sort_Search_loop f i j \<le> k \<and> k < n \<longrightarrow> f k)"
  using mono
proof (induction f i j rule: sort_Search_loop.induct)
  case (1 f i j)
  show ?case
  proof (cases "i < j")
    case False
    with "1.prems" have "i = j" by simp
    with "1.prems" show ?thesis by (simp add: sort_Search_loop.simps [of f j j])
  next
    case True
    define h where "h = (i + j) div 2"
    have hb: "i \<le> h" "h < j" using True by (simp_all add: h_def)
    show ?thesis
    proof (cases "f h")
      case fh: True
      have step: "sort_Search_loop f i j = sort_Search_loop f i h"
        using True fh by (subst sort_Search_loop.simps) (simp add: h_def Let_def)
      have up: "\<forall>k. h \<le> k \<and> k < n \<longrightarrow> f k"
        using "1.prems"(5) fh by blast
      have "i \<le> sort_Search_loop f i h \<and> sort_Search_loop f i h \<le> h
          \<and> (\<forall>k<sort_Search_loop f i h. \<not> f k)
          \<and> (\<forall>k. sort_Search_loop f i h \<le> k \<and> k < n \<longrightarrow> f k)"
      proof (rule "1.IH"(2) [OF True h_def])
        show "\<not> \<not> f h" using fh by simp
        show "i \<le> h" by (rule hb(1))
        show "h \<le> n" using hb(2) "1.prems"(2) by simp
        show "\<forall>k<i. \<not> f k" by (rule "1.prems"(3))
        show "\<forall>k. h \<le> k \<and> k < n \<longrightarrow> f k" by (rule up)
        show "\<forall>a b. a \<le> b \<and> b < n \<and> f a \<longrightarrow> f b" by (rule "1.prems"(5))
      qed
      then show ?thesis using step hb by auto
    next
      case nfh: False
      have step: "sort_Search_loop f i j = sort_Search_loop f (h + 1) j"
        using True nfh by (subst sort_Search_loop.simps) (simp add: h_def Let_def)
      have hn: "h < n" using hb(2) "1.prems"(2) by simp
      have low: "\<forall>k<h + 1. \<not> f k"
      proof (intro allI impI)
        fix k assume "k < h + 1"
        then have "k \<le> h" by simp
        with "1.prems"(5) hn nfh show "\<not> f k" by blast
      qed
      have "h + 1 \<le> sort_Search_loop f (h + 1) j \<and> sort_Search_loop f (h + 1) j \<le> j
          \<and> (\<forall>k<sort_Search_loop f (h + 1) j. \<not> f k)
          \<and> (\<forall>k. sort_Search_loop f (h + 1) j \<le> k \<and> k < n \<longrightarrow> f k)"
      proof (rule "1.IH"(1) [OF True h_def])
        show "\<not> f h" by (rule nfh)
        show "h + 1 \<le> j" using hb(2) by simp
        show "j \<le> n" by (rule "1.prems"(2))
        show "\<forall>k<h + 1. \<not> f k" by (rule low)
        show "\<forall>k. j \<le> k \<and> k < n \<longrightarrow> f k" by (rule "1.prems"(4))
        show "\<forall>a b. a \<le> b \<and> b < n \<and> f a \<longrightarrow> f b" by (rule "1.prems"(5))
      qed
      then show ?thesis using step hb by auto
    qed
  qed
qed


lemma serials_nth: "k < Len q \<Longrightarrow> serials q ! k = MsgSerial (msg (queue q ! k))"
  by (simp add: serials_def Len_def)

lemma length_serials: "length (serials q) = Len q"
  by (simp add: serials_def Len_def)

lemma queue_sorted_nth:
  "queue_sorted q \<Longrightarrow> a < b \<Longrightarrow> b < Len q \<Longrightarrow>
     MsgSerial (msg (queue q ! a)) < MsgSerial (msg (queue q ! b))"
  using sorted_wrt_nth_less [of "(<)" "serials q" a b]
  by (simp add: queue_sorted_def length_serials serials_nth)

lemma Search_spec:
  assumes "queue_sorted q"
  shows "Search q m \<le> Len q
       \<and> (\<forall>k<Search q m. MsgSerial (msg (queue q ! k)) < MsgSerial m)
       \<and> (\<forall>k. Search q m \<le> k \<and> k < Len q \<longrightarrow> MsgSerial m \<le> MsgSerial (msg (queue q ! k)))"
proof -
  let ?f = "\<lambda>i. MsgSerial m \<le> MsgSerial (msg (queue q ! i))"
  have mono: "\<forall>a b. a \<le> b \<and> b < Len q \<and> ?f a \<longrightarrow> ?f b"
  proof (intro allI impI)
    fix a b assume h: "a \<le> b \<and> b < Len q \<and> ?f a"
    show "?f b"
    proof (cases "a = b")
      case True with h show ?thesis by simp
    next
      case False
      with h have "a < b" by simp
      with assms h have "MsgSerial (msg (queue q ! a)) < MsgSerial (msg (queue q ! b))"
        by (simp add: queue_sorted_nth)
      with h show ?thesis by simp
    qed
  qed
  have "0 \<le> sort_Search_loop ?f 0 (Len q) \<and> sort_Search_loop ?f 0 (Len q) \<le> Len q
       \<and> (\<forall>k<sort_Search_loop ?f 0 (Len q). \<not> ?f k)
       \<and> (\<forall>k. sort_Search_loop ?f 0 (Len q) \<le> k \<and> k < Len q \<longrightarrow> ?f k)"
    by (rule sort_Search_loop_correct [OF mono]) simp_all
  then show ?thesis
    by (simp add: Search_def sort_Search_def not_le)
qed

lemma Search_found:
  assumes "queue_sorted q" and "k < Len q" and "MsgSerial (msg (queue q ! k)) = MsgSerial m"
  shows "Search q m = k"
proof -
  note sp = Search_spec [OF assms(1), of m]
  have "\<not> k < Search q m" using sp assms(3) by auto
  moreover have "\<not> Search q m < k"
  proof
    assume lt: "Search q m < k"
    then have "MsgSerial (msg (queue q ! Search q m)) < MsgSerial (msg (queue q ! k))"
      using assms(1,2) by (simp add: queue_sorted_nth)
    moreover have "MsgSerial m \<le> MsgSerial (msg (queue q ! Search q m))"
      using sp lt assms(2) by auto
    ultimately show False using assms(3) by simp
  qed
  ultimately show ?thesis by simp
qed

lemma copy_insert:
  assumes "i < length xs"
  shows "(copy_slices (xs @ [z]) (i + 1) i)[i := e] = take i xs @ e # drop i xs"
proof -
  have n: "min (length (xs @ [z]) - (i + 1)) (length (xs @ [z]) - i) = length xs - i"
    using assms by simp
  have "copy_slices (xs @ [z]) (i + 1) i
        = take (i + 1) (xs @ [z]) @ take (length xs - i) (drop i (xs @ [z])) @ drop (i + 1 + (length xs - i)) (xs @ [z])"
    unfolding copy_slices_def Let_def n by simp
  also have "\<dots> = take (i + 1) xs @ drop i xs"
    using assms by simp
  finally have c: "copy_slices (xs @ [z]) (i + 1) i = take (i + 1) xs @ drop i xs" .
  have "take (i + 1) xs = take i xs @ [xs ! i]"
    using assms by (simp add: take_Suc_conv_app_nth)
  then show ?thesis
    using assms c by (simp add: list_update_append)
qed


lemma Search_take_lt:
  assumes "queue_sorted q" and "x \<in> set (take (Search q m) (serials q))"
  shows "x < MsgSerial m"
proof -
  from assms(2) obtain k where k: "k < length (take (Search q m) (serials q))"
      and x: "x = take (Search q m) (serials q) ! k"
    by (auto simp: in_set_conv_nth)
  from k have kS: "k < Search q m" and kL: "k < Len q" by (simp_all add: length_serials)
  from x kS kL have "x = MsgSerial (msg (queue q ! k))" by (simp add: serials_nth)
  with Search_spec [OF assms(1), of m] kS show ?thesis by simp
qed

lemma Search_drop_ge:
  assumes "queue_sorted q" and "x \<in> set (drop (Search q m) (serials q))"
  shows "MsgSerial m \<le> x"
proof -
  from assms(2) obtain k where k: "k < length (drop (Search q m) (serials q))"
      and x: "x = drop (Search q m) (serials q) ! k"
    by (auto simp: in_set_conv_nth)
  from k have kL: "Search q m + k < Len q" by (simp add: length_serials)
  from x kL have "x = MsgSerial (msg (queue q ! (Search q m + k)))"
    by (simp add: serials_nth length_serials)
  with Search_spec [OF assms(1), of m] kL show ?thesis by simp
qed

lemma Search_drop_gt:
  assumes "queue_sorted q" and "Search q m < Len q"
    and "MsgSerial (msg (queue q ! Search q m)) \<noteq> MsgSerial m"
    and "x \<in> set (drop (Search q m) (serials q))"
  shows "MsgSerial m < x"
proof -
  from assms(4) obtain k where k: "k < length (drop (Search q m) (serials q))"
      and x: "x = drop (Search q m) (serials q) ! k"
    by (auto simp: in_set_conv_nth)
  from k have kL: "Search q m + k < Len q" by (simp add: length_serials)
  from x kL have xk: "x = MsgSerial (msg (queue q ! (Search q m + k)))"
    by (simp add: serials_nth length_serials)
  have "MsgSerial m \<le> MsgSerial (msg (queue q ! Search q m))"
    using Search_spec [OF assms(1), of m] assms(2) by blast
  with assms(3) have first: "MsgSerial m < MsgSerial (msg (queue q ! Search q m))"
    by simp
  show ?thesis
  proof (cases k)
    case 0
    with xk first show ?thesis by simp
  next
    case (Suc k')
    then have "Search q m < Search q m + k" by simp
    with assms(1) kL have "MsgSerial (msg (queue q ! Search q m)) < x"
      unfolding xk by (simp add: queue_sorted_nth)
    with first show ?thesis by simp
  qed
qed

lemma serials_Enqueue:
  assumes "Search q m \<le> Len q"
  shows "serials (Enqueue q m c) =
     (let i = Search q m
      in if i = Len q then serials q @ [MsgSerial m]
         else if MsgSerial (msg (queue q ! i)) = MsgSerial m then serials q
         else take i (serials q) @ MsgSerial m # drop i (serials q))"
proof -
  have "Search q m < length (queue q) \<Longrightarrow>
        (copy_slices (queue q @ [msgCh_zero]) (Search q m + 1) (Search q m))[Search q m := \<lparr>msg = m, ch = c\<rparr>]
        = take (Search q m) (queue q) @ \<lparr>msg = m, ch = c\<rparr> # drop (Search q m) (queue q)"
    by (rule copy_insert)
  then show ?thesis
    using assms
    by (auto simp: Enqueue_def Let_def serials_def Len_def take_map drop_map)
qed

lemma Enqueue_sorted:
  assumes "queue_sorted q"
  shows "queue_sorted (Enqueue q m c)"
proof -
  let ?i = "Search q m"
  have ss: "sorted_wrt (<) (serials q)" using assms by (simp add: queue_sorted_def)
  have le: "?i \<le> Len q" using Search_spec [OF assms, of m] by simp
  show ?thesis
  proof (cases "?i = Len q")
    case True
    then have "\<forall>x\<in>set (serials q). x < MsgSerial m"
      using Search_take_lt [OF assms, of _ m] by (simp add: length_serials)
    with True ss show ?thesis
      by (simp add: queue_sorted_def serials_Enqueue [OF le] sorted_wrt_append)
  next
    case False
    show ?thesis
    proof (cases "MsgSerial (msg (queue q ! ?i)) = MsgSerial m")
      case True
      with False assms show ?thesis by (simp add: queue_sorted_def serials_Enqueue [OF le])
    next
      case neq: False
      from False le have lt: "?i < Len q" by simp
      have split: "sorted_wrt (<) (take ?i (serials q) @ drop ?i (serials q))"
        using ss by simp
      have a: "\<forall>x\<in>set (take ?i (serials q)). x < MsgSerial m"
        using Search_take_lt [OF assms] by blast
      have b: "\<forall>x\<in>set (drop ?i (serials q)). MsgSerial m < x"
        using Search_drop_gt [OF assms lt neq] by blast
      have "sorted_wrt (<) (take ?i (serials q) @ MsgSerial m # drop ?i (serials q))"
        using split a b unfolding sorted_wrt_append by auto
      with False neq show ?thesis
        by (simp add: queue_sorted_def serials_Enqueue [OF le] Let_def)
    qed
  qed
qed


subsection \<open>The queue stays sorted\<close>

lemma slice_Inr: "slice xs lo hi = Inr ys \<Longrightarrow> ys = take (nat hi - nat lo) (drop (nat lo) xs)"
  by (simp add: slice_def split: if_splits)

lemma Ack_queue_drop:
  assumes "snd (Ack q m e) = Inr q'"
  shows "\<exists>k. queue q' = drop k (queue q)"
proof (cases "Len q = 0")
  case True
  with assms have "q' = q" by (simp add: Ack_def)
  then have "queue q' = drop 0 (queue q)" by simp
  then show ?thesis by blast
next
  case False
  obtain nack ack where b: "Ack_bounds q m = (nack, ack)" by (cases "Ack_bounds q m")
  from assms False b obtain rest where r: "slice (queue q) ack (int (Len q)) = Inr rest"
      and q': "q' = q\<lparr>queue := rest\<rparr>"
    by (auto simp: Ack_def Let_def split: sum.splits)
  from slice_Inr [OF r] have "rest = drop (nat ack) (queue q)" by (simp add: Len_def)
  with q' show ?thesis by auto
qed

lemma Nack_queue_drop:
  assumes "snd (Nack q m e) = Inr q'"
  shows "\<exists>k. queue q' = drop k (queue q)"
proof (cases "Len q = 0")
  case True
  with assms have "q' = q" by (simp add: Nack_def)
  then have "queue q' = drop 0 (queue q)" by simp
  then show ?thesis by blast
next
  case False
  from assms False obtain rest where r: "slice (queue q) (Nack_bound q m) (int (Len q)) = Inr rest"
      and q': "q' = q\<lparr>queue := rest\<rparr>"
    by (auto simp: Nack_def Let_def split: sum.splits)
  from slice_Inr [OF r] have "rest = drop (nat (Nack_bound q m)) (queue q)" by (simp add: Len_def)
  with q' show ?thesis by auto
qed

lemma queue_sorted_drop:
  "queue_sorted q \<Longrightarrow> queue q' = drop k (queue q) \<Longrightarrow> queue_sorted q'"
  by (simp add: queue_sorted_def serials_def drop_map [symmetric] sorted_wrt_drop)

lemma apply_op_sorted:
  assumes "queue_sorted q" and "apply_op x q = Inr q'"
  shows "queue_sorted q'"
proof (cases x)
  case (OpEnqueue m c)
  with assms show ?thesis by (auto simp: Enqueue_sorted)
next
  case (OpAck m e)
  with assms(2) obtain k where "queue q' = drop k (queue q)"
    using Ack_queue_drop [of q m e q'] by auto
  with assms(1) show ?thesis by (rule queue_sorted_drop)
next
  case (OpNack m e)
  with assms(2) obtain k where "queue q' = drop k (queue q)"
    using Nack_queue_drop [of q m e q'] by auto
  with assms(1) show ?thesis by (rule queue_sorted_drop)
qed

lemma run_ops_sorted:
  "queue_sorted q \<Longrightarrow> queue_sorted (fst (run_ops xs q))"
proof (induction xs arbitrary: q)
  case Nil
  then show ?case by simp
next
  case (Cons x xs)
  show ?case
  proof (cases "apply_op x q")
    case (Inl p)
    with Cons.prems show ?thesis by simp
  next
    case (Inr q1)
    with Cons.prems have "queue_sorted q1" by (simp add: apply_op_sorted)
    then have "queue_sorted (fst (run_ops xs q1))" by (rule Cons.IH)
    with Inr show ?thesis by simp
  qed
qed

lemma Enqueue_duplicate:
  assumes "queue_sorted q" and "MsgSerial m \<in> set (serials q)"
  shows "Enqueue q m c = q"
proof -
  from assms(2) obtain k where k: "k < Len q" and s: "MsgSerial (msg (queue q ! k)) = MsgSerial m"
    by (auto simp: in_set_conv_nth length_serials serials_nth)
  from assms(1) k s have "Search q m = k" by (rule Search_found)
  with k s show ?thesis by (simp add: Enqueue_def)
qed

text \<open>
  C4. After every sequence of \<open>Enqueue\<close>, \<open>Ack\<close> and \<open>Nack\<close> calls on a queue that
  starts empty (a call that panics ends the sequence and leaves the queue as it was),
  the serials of the queued entries increase strictly, so there is at most one entry
  per serial; and \<open>Enqueue\<close> of a message whose serial is already queued leaves the
  queue unchanged.
\<close>

theorem pending_queue_sorted:
  "sorted_wrt (<) (serials (fst (run_ops ops newPendingEmitter)))
   \<and> distinct (serials (fst (run_ops ops newPendingEmitter)))
   \<and> (\<forall>m c. MsgSerial m \<in> set (serials (fst (run_ops ops newPendingEmitter)))
          \<longrightarrow> Enqueue (fst (run_ops ops newPendingEmitter)) m c
              = fst (run_ops ops newPendingEmitter))"
proof -
  have "queue_sorted newPendingEmitter"
    by (simp add: queue_sorted_def serials_def newPendingEmitter_def)
  then have s: "queue_sorted (fst (run_ops ops newPendingEmitter))"
    by (rule run_ops_sorted)
  then have "sorted_wrt (<) (serials (fst (run_ops ops newPendingEmitter)))"
    by (simp add: queue_sorted_def)
  moreover from this have "distinct (serials (fst (run_ops ops newPendingEmitter)))"
    by (simp add: strict_sorted_iff)
  moreover have "\<forall>m c. MsgSerial m \<in> set (serials (fst (run_ops ops newPendingEmitter)))
          \<longrightarrow> Enqueue (fst (run_ops ops newPendingEmitter)) m c
              = fst (run_ops ops newPendingEmitter)"
    using s by (simp add: Enqueue_duplicate)
  ultimately show ?thesis by (intro conjI)
qed

theorem pending_queue_sorted_witness:
  "run_ops [OpEnqueue \<lparr> MsgSerial = 2, Count = 1 \<rparr> 12, OpEnqueue \<lparr> MsgSerial = 0, Count = 1 \<rparr> 10,
            OpEnqueue \<lparr> MsgSerial = 1, Count = 1 \<rparr> 11, OpEnqueue \<lparr> MsgSerial = 1, Count = 1 \<rparr> 21,
            OpAck \<lparr> MsgSerial = 0, Count = 1 \<rparr> None] newPendingEmitter
     = (\<lparr> queue = [queued 1 11, queued 2 12] \<rparr>, None)
   \<and> sorted_wrt (<) (serials \<lparr> queue = [queued 1 11, queued 2 12] \<rparr>)
   \<and> Enqueue \<lparr> queue = [queued 1 11, queued 2 12] \<rparr> \<lparr> MsgSerial = 2, Count = 5 \<rparr> 22
       = \<lparr> queue = [queued 1 11, queued 2 12] \<rparr>"
proof -
  have r: "run_ops [OpEnqueue \<lparr> MsgSerial = 2, Count = 1 \<rparr> 12, OpEnqueue \<lparr> MsgSerial = 0, Count = 1 \<rparr> 10,
            OpEnqueue \<lparr> MsgSerial = 1, Count = 1 \<rparr> 11, OpEnqueue \<lparr> MsgSerial = 1, Count = 1 \<rparr> 21,
            OpAck \<lparr> MsgSerial = 0, Count = 1 \<rparr> None] newPendingEmitter
     = (\<lparr> queue = [queued 1 11, queued 2 12] \<rparr>, None)"
    by code_simp
  from pending_queue_sorted [of "[OpEnqueue \<lparr> MsgSerial = 2, Count = 1 \<rparr> 12,
            OpEnqueue \<lparr> MsgSerial = 0, Count = 1 \<rparr> 10,
            OpEnqueue \<lparr> MsgSerial = 1, Count = 1 \<rparr> 11, OpEnqueue \<lparr> MsgSerial = 1, Count = 1 \<rparr> 21,
            OpAck \<lparr> MsgSerial = 0, Count = 1 \<rparr> None]"] r
  show ?thesis
    by (simp add: serials_def queued_def)
qed

subsection \<open>What an ACK completes\<close>

lemma Ack_bounds_nack:
  assumes "queue_sorted q" and "Ack_bounds q m = (nack, ack)"
  shows "int (Search q m) \<le> nack \<and> nack \<le> int (Len q)"
  using assms Search_spec [OF assms(1), of m]
  by (auto simp: Ack_bounds_def Let_def split: if_splits)

lemma Ack_sent:
  assumes "Len q \<noteq> 0" and "Ack_bounds q m = (nack, ack)" and "0 \<le> nack" and "nack \<le> int (Len q)"
  shows "fst (Ack q m errInfo) =
           map (\<lambda>sch. (sch, if errInfo = None \<and> 0 < nack then Some errSerialSkipped else errInfo))
               (take (nat nack) (queue q))
           @ (if nack \<le> ack \<and> ack \<le> int (Len q)
              then map (\<lambda>sch. (sch, None)) (take (nat ack - nat nack) (drop (nat nack) (queue q)))
              else [])"
  using assms
  by (auto simp: Ack_def Let_def slice_def unwrapNil_def Len_def split: sum.splits)

lemma queue_distinct: "queue_sorted q \<Longrightarrow> distinct (queue q)"
proof -
  assume "queue_sorted q"
  then have "distinct (map (\<lambda>e. MsgSerial (msg e)) (queue q))"
    by (simp add: queue_sorted_def serials_def strict_sorted_iff)
  then show ?thesis by (simp add: distinct_map)
qed

lemma queue_sorted_gap:
  "queue_sorted q \<Longrightarrow> a + d < Len q \<Longrightarrow>
     MsgSerial (msg (queue q ! a)) + int d \<le> MsgSerial (msg (queue q ! (a + d)))"
proof (induction d)
  case 0
  then show ?case by simp
next
  case (Suc d)
  then have "MsgSerial (msg (queue q ! a)) + int d \<le> MsgSerial (msg (queue q ! (a + d)))"
    by simp
  moreover have "MsgSerial (msg (queue q ! (a + d))) < MsgSerial (msg (queue q ! (a + Suc d)))"
    using Suc.prems by (simp add: queue_sorted_nth)
  ultimately show ?case by simp
qed


lemma in_set_map_pair: "(e, r) \<in> set (map (\<lambda>sch. (sch, v)) xs) \<longleftrightarrow> e \<in> set xs \<and> r = v"
  by auto

lemma filter_fst_map_pair:
  "filter (\<lambda>p. fst p = e) (map (\<lambda>sch. (sch, v)) xs) = map (\<lambda>sch. (sch, v)) (filter (\<lambda>x. x = e) xs)"
  by (induction xs) auto

lemma filter_eq_distinct: "distinct xs \<Longrightarrow> e \<in> set xs \<Longrightarrow> filter (\<lambda>x. x = e) xs = [e]"
  by (induction xs) (auto simp: filter_empty_conv)

lemma filter_eq_absent: "e \<notin> set xs \<Longrightarrow> filter (\<lambda>x. x = e) xs = []"
  by (induction xs) auto

lemma queue_take_lt:
  assumes "queue_sorted q" and "i < Len q" and "MsgSerial (msg (queue q ! i)) = s"
  shows "filter (\<lambda>e. MsgSerial (msg e) < s) (queue q) = take i (queue q)"
    and "filter (\<lambda>e. s \<le> MsgSerial (msg e)) (queue q) = drop i (queue q)"
proof -
  have lt: "\<forall>x\<in>set (take i (queue q)). MsgSerial (msg x) < s"
  proof
    fix x assume "x \<in> set (take i (queue q))"
    then obtain j where j: "j < i" "j < length (queue q)" and x: "x = queue q ! j"
      by (auto simp: in_set_conv_nth)
    with assms show "MsgSerial (msg x) < s" using queue_sorted_nth [of q j i] by simp
  qed
  have ge: "\<forall>x\<in>set (drop i (queue q)). s \<le> MsgSerial (msg x)"
  proof
    fix x assume "x \<in> set (drop i (queue q))"
    then obtain j where j0: "j < length (drop i (queue q))" and x0: "x = drop i (queue q) ! j"
      by (auto simp: in_set_conv_nth)
    from j0 have j: "i + j < length (queue q)" by simp
    from x0 j have x: "x = queue q ! (i + j)" by simp
    show "s \<le> MsgSerial (msg x)"
    proof (cases j)
      case 0 with x assms show ?thesis by simp
    next
      case (Suc j')
      with j assms(1) have "MsgSerial (msg (queue q ! i)) < MsgSerial (msg (queue q ! (i + j)))"
        by (intro queue_sorted_nth) (simp_all add: Len_def)
      with x assms(3) show ?thesis by simp
    qed
  qed
  have "filter (\<lambda>e. MsgSerial (msg e) < s) (queue q)
        = filter (\<lambda>e. MsgSerial (msg e) < s) (take i (queue q))
          @ filter (\<lambda>e. MsgSerial (msg e) < s) (drop i (queue q))"
    by (metis append_take_drop_id filter_append)
  moreover have "filter (\<lambda>e. MsgSerial (msg e) < s) (take i (queue q)) = take i (queue q)"
    using lt by (simp add: filter_id_conv)
  moreover have "filter (\<lambda>e. MsgSerial (msg e) < s) (drop i (queue q)) = []"
    using ge by (auto simp: filter_empty_conv)
  ultimately show "filter (\<lambda>e. MsgSerial (msg e) < s) (queue q) = take i (queue q)" by simp
  have "filter (\<lambda>e. s \<le> MsgSerial (msg e)) (queue q)
        = filter (\<lambda>e. s \<le> MsgSerial (msg e)) (take i (queue q))
          @ filter (\<lambda>e. s \<le> MsgSerial (msg e)) (drop i (queue q))"
    by (metis append_take_drop_id filter_append)
  moreover have "filter (\<lambda>e. s \<le> MsgSerial (msg e)) (drop i (queue q)) = drop i (queue q)"
    using ge by (simp add: filter_id_conv)
  moreover have "filter (\<lambda>e. s \<le> MsgSerial (msg e)) (take i (queue q)) = []"
    using lt by (auto simp: filter_empty_conv)
  ultimately show "filter (\<lambda>e. s \<le> MsgSerial (msg e)) (queue q) = drop i (queue q)" by simp
qed

lemma take_min_length: "take (min a (length xs)) xs = take a xs"
  by (cases "a \<le> length xs") (simp_all add: min_def)

text \<open>
  C3 (as amended). On a sorted queue, every queued entry whose serial is strictly less
  than the serial of the ACK is completed exactly once by \<open>Ack\<close>: the sends that \<open>Ack\<close>
  makes to the entry are one send, of \<open>errSerialSkipped\<close> when the ACK carries no error
  and of the ACK's own error when it carries one. This holds for every \<open>Count\<close>, also
  when \<open>Ack\<close> panics afterwards.
\<close>

theorem Ack_skipped_serials:
  assumes "queue_sorted q" and "e \<in> set (queue q)" and "MsgSerial (msg e) < MsgSerial m"
  shows "filter (\<lambda>p. fst p = e) (fst (Ack q m errInfo))
       = [(e, Some (case errInfo of None \<Rightarrow> errSerialSkipped | Some err \<Rightarrow> err))]"
proof -
  from assms(2) obtain k where k: "k < Len q" and e: "e = queue q ! k"
    by (auto simp: in_set_conv_nth Len_def)
  note sp = Search_spec [OF assms(1), of m]
  have ki: "k < Search q m"
  proof (rule ccontr)
    assume "\<not> k < Search q m"
    with sp k have "MsgSerial m \<le> MsgSerial (msg (queue q ! k))" by simp
    with assms(3) e show False by simp
  qed
  obtain nack ack where b: "Ack_bounds q m = (nack, ack)" by (cases "Ack_bounds q m")
  from Ack_bounds_nack [OF assms(1) b] have n: "int (Search q m) \<le> nack" "nack \<le> int (Len q)"
    by simp_all
  from ki n have kn: "k < nat nack" and npos: "0 < nack" by simp_all
  from k have ne: "Len q \<noteq> 0" by simp
  define v where "v = Some (case errInfo of None \<Rightarrow> errSerialSkipped | Some err \<Rightarrow> err)"
  define acked where "acked = (if nack \<le> ack \<and> ack \<le> int (Len q)
              then take (nat ack - nat nack) (drop (nat nack) (queue q)) else [])"
  have err: "(if errInfo = None \<and> 0 < nack then Some errSerialSkipped else errInfo) = v"
    using npos by (cases errInfo) (simp_all add: v_def)
  have sent: "fst (Ack q m errInfo) =
           map (\<lambda>sch. (sch, v)) (take (nat nack) (queue q)) @ map (\<lambda>sch. (sch, None)) acked"
    unfolding Ack_sent [OF ne b less_imp_le [OF npos] n(2), of errInfo] err acked_def by simp
  have d: "distinct (take (nat nack) (queue q))"
    using queue_distinct [OF assms(1)] by simp
  have in_take: "e \<in> set (take (nat nack) (queue q))"
  proof -
    have "k < length (take (nat nack) (queue q))" using kn k by (simp add: Len_def)
    moreover have "take (nat nack) (queue q) ! k = e" using kn e by simp
    ultimately show ?thesis by (metis nth_mem)
  qed
  have not_in_drop: "e \<notin> set (drop (nat nack) (queue q))"
  proof
    assume "e \<in> set (drop (nat nack) (queue q))"
    then obtain j where j0: "j < length (drop (nat nack) (queue q))"
        and ej0: "e = drop (nat nack) (queue q) ! j"
      by (auto simp: in_set_conv_nth)
    from j0 have j: "nat nack + j < Len q" by (simp add: Len_def)
    from ej0 j have ej: "e = queue q ! (nat nack + j)" by (simp add: Len_def)
    have "queue q ! k = queue q ! (nat nack + j)" using e ej by (rule subst)
    moreover have "k < length (queue q)" "nat nack + j < length (queue q)"
      using k j by (simp_all add: Len_def)
    ultimately have "k = nat nack + j"
      using nth_eq_iff_index_eq [OF queue_distinct [OF assms(1)]] by blast
    with kn show False by simp
  qed
  have not_acked: "e \<notin> set acked"
    using not_in_drop by (auto simp: acked_def dest: in_set_takeD)
  have "filter (\<lambda>p. fst p = e) (fst (Ack q m errInfo))
        = map (\<lambda>sch. (sch, v)) (filter (\<lambda>x. x = e) (take (nat nack) (queue q)))
          @ map (\<lambda>sch. (sch, None)) (filter (\<lambda>x. x = e) acked)"
    unfolding sent filter_append filter_fst_map_pair by (rule refl)
  also have "\<dots> = [(e, v)]"
    unfolding filter_eq_distinct [OF d in_take] filter_eq_absent [OF not_acked] by simp
  finally show ?thesis unfolding v_def .
qed


theorem Ack_skipped_serials_witness:
  "filter (\<lambda>p. fst p = queued 3 13)
     (fst (Ack \<lparr> queue = [queued 3 13, queued 4 14] \<rparr> \<lparr> MsgSerial = 4, Count = 1 \<rparr> None))
   = [(queued 3 13, Some errSerialSkipped)]"
  using Ack_skipped_serials [of "\<lparr> queue = [queued 3 13, queued 4 14] \<rparr>" "queued 3 13" "\<lparr> MsgSerial = 4, Count = 1 \<rparr>" None]
  by (simp add: queue_sorted_def serials_def queued_def)

text \<open>
  C3 as stated fails when the ACK carries an error: the entry with serial 0, skipped by
  an ACK for serial 1, is completed with the ACK's error and not with
  \<open>errSerialSkipped\<close>.
\<close>

theorem Ack_skipped_error_counterexample:
  "fst (Ack \<lparr> queue = [queued 0 10, queued 1 11] \<rparr> \<lparr> MsgSerial = 1, Count = 1 \<rparr>
          (Some (OtherErrorInfo 40160 ''rejected'')))
   = [(queued 0 10, Some (OtherErrorInfo 40160 ''rejected'')), (queued 1 11, None)]"
  by code_simp

lemma Ack_returns:
  assumes "Len q \<noteq> 0" and "Ack_bounds q m = (nack, ack)"
    and "0 \<le> nack" and "nack \<le> ack" and "ack \<le> int (Len q)"
  shows "snd (Ack q m errInfo) = Inr (q\<lparr>queue := drop (nat ack) (queue q)\<rparr>)"
  using assms
  by (simp add: Ack_def Let_def slice_def Len_def)

lemma Ack_bounds_found:
  assumes "queue_sorted q" and "k < Len q" and "MsgSerial (msg (queue q ! k)) = MsgSerial m"
    and "0 \<le> Count m" and "int (Len q) + Count m < 2 ^ 63"
  shows "Ack_bounds q m = (int k, min (int k + Count m) (int (Len q)))"
proof -
  have s: "Search q m = k" using assms(1-3) by (rule Search_found)
  have "go_int (int k + Count m) = int k + Count m"
    using assms(2,4,5) by (intro go_int_id) simp_all
  with s assms(2,3) show ?thesis by (simp add: Ack_bounds_def)
qed

text \<open>
  C2 (as amended). On a sorted queue, for an ACK with serial \<open>s\<close> and count \<open>n > 0\<close> where
  \<open>s\<close> is a queued serial (and the queue length plus \<open>n\<close> fits Go's \<open>int\<close>), \<open>Ack\<close>
  returns without panic. Its sends are, in queue order, one to each entry before \<open>s\<close>,
  of the ACK's error or of \<open>errSerialSkipped\<close> when it has none, and then nil to each of
  the first \<open>n\<close> entries from \<open>s\<close> on; these entries leave the queue. So every queued
  entry with serial in \<open>[s, s + n)\<close> is completed exactly once, with nil, whether the ACK
  carries an error or not, and only entries before \<open>s\<close> receive an error.
\<close>

theorem Ack_acknowledged_range:
  assumes "queue_sorted q" and "MsgSerial m \<in> set (serials q)"
    and "0 < Count m" and "int (Len q) + Count m < 2 ^ 63"
  shows "fst (Ack q m errInfo)
           = map (\<lambda>sch. (sch, Some (case errInfo of None \<Rightarrow> errSerialSkipped | Some err \<Rightarrow> err)))
                 (filter (\<lambda>e. MsgSerial (msg e) < MsgSerial m) (queue q))
             @ map (\<lambda>sch. (sch, None))
                 (take (nat (Count m)) (filter (\<lambda>e. MsgSerial m \<le> MsgSerial (msg e)) (queue q)))
       \<and> snd (Ack q m errInfo)
           = Inr (q\<lparr>queue := drop (nat (Count m))
                                (filter (\<lambda>e. MsgSerial m \<le> MsgSerial (msg e)) (queue q))\<rparr>)
       \<and> (\<forall>e\<in>set (queue q).
             MsgSerial m \<le> MsgSerial (msg e) \<and> MsgSerial (msg e) < MsgSerial m + Count m
             \<longrightarrow> filter (\<lambda>p. fst p = e) (fst (Ack q m errInfo)) = [(e, None)])
       \<and> (\<forall>e r. (e, Some r) \<in> set (fst (Ack q m errInfo))
             \<longrightarrow> MsgSerial (msg e) < MsgSerial m
                 \<and> r = (case errInfo of None \<Rightarrow> errSerialSkipped | Some err \<Rightarrow> err))"
proof -
  from assms(2) obtain i where i: "i < Len q" and si: "MsgSerial (msg (queue q ! i)) = MsgSerial m"
    by (auto simp: in_set_conv_nth length_serials serials_nth)
  define v where "v = Some (case errInfo of None \<Rightarrow> errSerialSkipped | Some err \<Rightarrow> err)"
  define ack where "ack = min (int i + Count m) (int (Len q))"
  define n where "n = nat (Count m)"
  have b: "Ack_bounds q m = (int i, ack)"
    unfolding ack_def using assms(1) i si _ assms(4) by (rule Ack_bounds_found) (use assms(3) in simp)
  have ne: "Len q \<noteq> 0" using i by simp
  have ia: "int i \<le> ack" "ack \<le> int (Len q)" using i assms(3) by (simp_all add: ack_def)
  have lo: "filter (\<lambda>e. MsgSerial (msg e) < MsgSerial m) (queue q) = take i (queue q)"
    and hi: "filter (\<lambda>e. MsgSerial m \<le> MsgSerial (msg e)) (queue q) = drop i (queue q)"
    using queue_take_lt [OF assms(1) i si] by simp_all
  have nack: "nat ack = min (i + n) (Len q)"
    using assms(3) unfolding ack_def n_def min_def by (auto simp: nat_add_distrib)
  have tk: "take (nat ack - i) (drop i (queue q)) = take n (drop i (queue q))"
  proof -
    have "nat ack - i = min n (length (drop i (queue q)))"
      unfolding nack using i by (simp add: Len_def min_def) arith
    then show ?thesis by (simp only: take_min_length)
  qed
  have dr: "drop (nat ack) (queue q) = drop n (drop i (queue q))"
    unfolding nack by (simp add: Len_def min_def add.commute)
  have errv: "map (\<lambda>sch. (sch, if errInfo = None \<and> 0 < int i then Some errSerialSkipped else errInfo))
               (take i (queue q)) = map (\<lambda>sch. (sch, v)) (take i (queue q))"
  proof (cases "i = 0")
    case True then show ?thesis by simp
  next
    case False
    then have "(if errInfo = None \<and> 0 < int i then Some errSerialSkipped else errInfo) = v"
      by (cases errInfo) (simp_all add: v_def)
    then show ?thesis by simp
  qed
  have sent0: "fst (Ack q m errInfo) =
           map (\<lambda>sch. (sch, if errInfo = None \<and> 0 < int i then Some errSerialSkipped else errInfo))
               (take i (queue q))
           @ map (\<lambda>sch. (sch, None)) (take (nat ack - i) (drop i (queue q)))"
    using Ack_sent [OF ne b _ less_imp_le, of errInfo] i ia by simp
  have sent: "fst (Ack q m errInfo) =
           map (\<lambda>sch. (sch, v)) (take i (queue q))
           @ map (\<lambda>sch. (sch, None)) (take n (drop i (queue q)))"
    unfolding sent0 errv tk by (rule refl)
  have c1: "fst (Ack q m errInfo)
           = map (\<lambda>sch. (sch, v)) (filter (\<lambda>e. MsgSerial (msg e) < MsgSerial m) (queue q))
             @ map (\<lambda>sch. (sch, None))
                 (take n (filter (\<lambda>e. MsgSerial m \<le> MsgSerial (msg e)) (queue q)))"
    unfolding sent lo hi by (rule refl)
  have c2: "snd (Ack q m errInfo)
           = Inr (q\<lparr>queue := drop n (filter (\<lambda>e. MsgSerial m \<le> MsgSerial (msg e)) (queue q))\<rparr>)"
    unfolding hi dr [symmetric] using Ack_returns [OF ne b _ ia, of errInfo] by simp
  have c3: "\<forall>e\<in>set (queue q).
             MsgSerial m \<le> MsgSerial (msg e) \<and> MsgSerial (msg e) < MsgSerial m + Count m
             \<longrightarrow> filter (\<lambda>p. fst p = e) (fst (Ack q m errInfo)) = [(e, None)]"
  proof (intro ballI impI)
    fix e assume eq: "e \<in> set (queue q)"
      and r: "MsgSerial m \<le> MsgSerial (msg e) \<and> MsgSerial (msg e) < MsgSerial m + Count m"
    from eq obtain k where k: "k < Len q" and e: "e = queue q ! k"
      by (auto simp: in_set_conv_nth Len_def)
    have ik: "i \<le> k"
    proof (rule ccontr)
      assume "\<not> i \<le> k"
      then have "k < i" by simp
      with assms(1) i have "MsgSerial (msg (queue q ! k)) < MsgSerial (msg (queue q ! i))"
        by (simp add: queue_sorted_nth)
      with si e r show False by simp
    qed
    have "MsgSerial (msg (queue q ! i)) + int (k - i) \<le> MsgSerial (msg (queue q ! (i + (k - i))))"
      using assms(1) k ik by (intro queue_sorted_gap) simp_all
    with ik si e r have "int (k - i) < Count m" by simp
    then have kn: "k - i < n" by (simp add: n_def)
    have in_acked: "e \<in> set (take n (drop i (queue q)))"
    proof -
      have "k - i < length (take n (drop i (queue q)))"
        using kn ik k by (simp add: Len_def)
      moreover have "take n (drop i (queue q)) ! (k - i) = e"
        using kn ik k e by (simp add: Len_def)
      ultimately show ?thesis by (metis nth_mem)
    qed
    have not_nacked: "e \<notin> set (take i (queue q))"
    proof
      assume "e \<in> set (take i (queue q))"
      then have "e \<in> set (filter (\<lambda>e. MsgSerial (msg e) < MsgSerial m) (queue q))"
        unfolding lo .
      with r show False by simp
    qed
    have d: "distinct (take n (drop i (queue q)))"
      using queue_distinct [OF assms(1)] by simp
    have "filter (\<lambda>p. fst p = e) (fst (Ack q m errInfo))
        = map (\<lambda>sch. (sch, v)) (filter (\<lambda>x. x = e) (take i (queue q)))
          @ map (\<lambda>sch. (sch, None)) (filter (\<lambda>x. x = e) (take n (drop i (queue q))))"
      unfolding sent filter_append filter_fst_map_pair by (rule refl)
    also have "\<dots> = [(e, None)]"
      unfolding filter_eq_distinct [OF d in_acked] filter_eq_absent [OF not_nacked] by simp
    finally show "filter (\<lambda>p. fst p = e) (fst (Ack q m errInfo)) = [(e, None)]" .
  qed
  have c4: "\<forall>e r. (e, Some r) \<in> set (fst (Ack q m errInfo))
             \<longrightarrow> MsgSerial (msg e) < MsgSerial m
                 \<and> r = (case errInfo of None \<Rightarrow> errSerialSkipped | Some err \<Rightarrow> err)"
  proof (intro allI impI)
    fix e r assume "(e, Some r) \<in> set (fst (Ack q m errInfo))"
    then have "e \<in> set (filter (\<lambda>e. MsgSerial (msg e) < MsgSerial m) (queue q)) \<and> Some r = v"
      unfolding c1 set_append Un_iff in_set_map_pair by simp
    then show "MsgSerial (msg e) < MsgSerial m
                 \<and> r = (case errInfo of None \<Rightarrow> errSerialSkipped | Some err \<Rightarrow> err)"
      by (simp add: v_def)
  qed
  from c1 c2 c3 c4 show ?thesis unfolding v_def n_def by (intro conjI)
qed

theorem Ack_acknowledged_range_witness:
  "fst (Ack \<lparr> queue = [queued 3 13, queued 5 15, queued 6 16, queued 7 17] \<rparr> \<lparr> MsgSerial = 5, Count = 2 \<rparr>
                   (Some (OtherErrorInfo 40160 ''rejected'')))
     = [(queued 3 13, Some (OtherErrorInfo 40160 ''rejected'')), (queued 5 15, None), (queued 6 16, None)]
   \<and> snd (Ack \<lparr> queue = [queued 3 13, queued 5 15, queued 6 16, queued 7 17] \<rparr> \<lparr> MsgSerial = 5, Count = 2 \<rparr>
                   (Some (OtherErrorInfo 40160 ''rejected'')))
     = Inr \<lparr> queue = [queued 7 17] \<rparr>
   \<and> filter (\<lambda>p. fst p = queued 6 16)
        (fst (Ack \<lparr> queue = [queued 3 13, queued 5 15, queued 6 16, queued 7 17] \<rparr> \<lparr> MsgSerial = 5, Count = 2 \<rparr>
                   (Some (OtherErrorInfo 40160 ''rejected''))))
     = [(queued 6 16, None)]"
  using Ack_acknowledged_range [of "\<lparr> queue = [queued 3 13, queued 5 15, queued 6 16, queued 7 17] \<rparr>"
      "\<lparr> MsgSerial = 5, Count = 2 \<rparr>" "Some (OtherErrorInfo 40160 ''rejected'')"]
  by (simp add: queue_sorted_def serials_def Len_def queued_def)

text \<open>
  C2 as stated fails when the ACK carries an error: the entries in the acknowledged
  range are completed with nil, not with that error.
\<close>

theorem Ack_range_error_counterexample:
  "fst (Ack \<lparr> queue = [queued 5 15, queued 6 16] \<rparr> \<lparr> MsgSerial = 5, Count = 2 \<rparr>
          (Some (OtherErrorInfo 40160 ''rejected'')))
   = [(queued 5 15, None), (queued 6 16, None)]"
  by code_simp

section \<open>Shuffle: properties\<close>

lemma Shuffle_loop_returns:
  "2 \<le> length l \<Longrightarrow>
     \<exists>l'. Shuffle_loop draw i l = Inr l' \<and> length l' = length l \<and> mset l' = mset l"
proof (induction draw i l rule: Shuffle_loop.induct)
  case (1 draw i l)
  show ?case
  proof (cases "i < length l")
    case False
    then show ?thesis by (simp add: Shuffle_loop.simps [of draw i l])
  next
    case True
    define n where "n = draw i mod nat (int (length l) - 1)"
    have I: "Intn draw i (int (length l) - 1) = Inr n"
      using "1.prems" by (simp add: Intn_def n_def)
    have "nat (int (length l) - 1) = length l - 1" by simp
    moreover have "0 < length l - 1" using "1.prems" by simp
    ultimately have "n < length l - 1" unfolding n_def by simp
    then have nl: "n < length l" by simp
    have step: "Shuffle_loop draw i l = Shuffle_loop draw (i + 1) (l[i := l ! n, n := l ! i])"
      using True I by (subst Shuffle_loop.simps) simp
    have "\<exists>l'. Shuffle_loop draw (i + 1) (l[i := l ! n, n := l ! i]) = Inr l'
            \<and> length l' = length (l[i := l ! n, n := l ! i])
            \<and> mset l' = mset (l[i := l ! n, n := l ! i])"
      using "1.IH" [OF True I] "1.prems" by simp
    moreover have "mset (l[i := l ! n, n := l ! i]) = mset l"
      using True nl by (simp add: mset_swap)
    ultimately show ?thesis using step by auto
  qed
qed

text \<open>
  C9. \<open>Shuffle\<close> is not total: on a list of length exactly 1 the first \<open>r.Intn\<close> is
  called with bound 0 and panics; on a list of any other length \<open>Shuffle\<close> returns, and
  what it returns is a permutation of its argument.
\<close>

theorem Shuffle_panics_on_singleton:
  "(length l = 1 \<longrightarrow> Shuffle draw l = Inl IntnNonPositive)
   \<and> (length l \<noteq> 1 \<longrightarrow> (\<exists>l'. Shuffle draw l = Inr l' \<and> length l' = length l \<and> mset l' = mset l))"
proof (intro conjI impI)
  assume "length l = 1"
  then show "Shuffle draw l = Inl IntnNonPositive"
    by (simp add: Shuffle_def Shuffle_loop.simps [of draw 0 l] Intn_def)
next
  assume ne: "length l \<noteq> 1"
  show "\<exists>l'. Shuffle draw l = Inr l' \<and> length l' = length l \<and> mset l' = mset l"
  proof (cases "length l = 0")
    case True
    then show ?thesis by (simp add: Shuffle_def Shuffle_loop.simps [of draw 0 "[]"])
  next
    case False
    with ne have "2 \<le> length l" by linarith
    then show ?thesis unfolding Shuffle_def by (rule Shuffle_loop_returns)
  qed
qed

theorem Shuffle_panics_on_singleton_witness:
  "Shuffle (\<lambda>k. 7 * k + 3) [''a.example''] = Inl IntnNonPositive
   \<and> Shuffle (\<lambda>k. 7 * k + 3) [''a'', ''b'', ''c''] = Inr [''a'', ''c'', ''b'']
   \<and> Shuffle (\<lambda>k. 7 * k + 3) [] = Inr []"
proof -
  have a: "Shuffle (\<lambda>k. 7 * k + 3) [''a.example''] = Inl IntnNonPositive"
    using Shuffle_panics_on_singleton [of "[''a.example'']" "\<lambda>k. 7 * k + 3"] by simp
  have b: "Shuffle (\<lambda>k. 7 * k + 3) [''a'', ''b'', ''c''] = Inr [''a'', ''c'', ''b'']"
    by code_simp
  have c: "Shuffle (\<lambda>k. 7 * k + 3) [] = Inr []"
    by code_simp
  from a b c show ?thesis by simp
qed

section \<open>Standard library: base64 round trip\<close>



















section \<open>Message codec: properties\<close>

subsection \<open>Splitting and joining the encoding chain\<close>

lemma strings_Split_not_Nil: "strings_Split s \<noteq> []"
  by (induction s) (auto split: list.splits)

lemma strings_Join_Cons: "xs \<noteq> [] \<Longrightarrow> strings_Join (x # xs) = x @ ''/'' @ strings_Join xs"
  by (cases xs) simp_all

lemma strings_Join_Split: "strings_Join (strings_Split s) = s"
proof (induction s)
  case Nil
  show ?case by simp
next
  case (Cons c cs)
  obtain x xs where sp: "strings_Split cs = x # xs"
    using strings_Split_not_Nil [of cs] by (cases "strings_Split cs") auto
  show ?case
  proof (cases "c = CHR ''/''")
    case True
    then show ?thesis using Cons.IH strings_Split_not_Nil [of cs]
      by (simp add: strings_Join_Cons)
  next
    case False
    then show ?thesis using Cons.IH sp by (cases xs) simp_all
  qed
qed




lemma decode_loop_Nil: "decode_loop L c [] m = (m, None)"
  by (simp add: decode_loop.simps)

lemma decode_loop_snoc:
  "decode_loop L c (xs @ [t]) m =
     (case decode_token L c t (Data m) of
        Inl err \<Rightarrow> (m, Some err)
      | Inr d \<Rightarrow> decode_loop L c xs (m\<lparr>Data := d, Encoding := strings_Join xs\<rparr>))"
  by (subst decode_loop.simps) simp

lemma decode_loop_suffix:
  "decode_loop L c post m = (m', None) \<Longrightarrow>
     decode_loop L c (xs @ post) (m\<lparr>Encoding := strings_Join (xs @ post)\<rparr>)
       = decode_loop L c xs (m'\<lparr>Encoding := strings_Join xs\<rparr>)"
proof (induction post arbitrary: m rule: rev_induct)
  case Nil
  then show ?case by (simp add: decode_loop_Nil)
next
  case (snoc p ps)
  from snoc.prems obtain d where tok: "decode_token L c p (Data m) = Inr d"
      and rest: "decode_loop L c ps (m\<lparr>Data := d, Encoding := strings_Join ps\<rparr>) = (m', None)"
    by (auto simp: decode_loop_snoc split: sum.splits)
  have "decode_loop L c (xs @ ps @ [p]) (m\<lparr>Encoding := strings_Join (xs @ ps @ [p])\<rparr>)
        = decode_loop L c (xs @ ps) (m\<lparr>Data := d, Encoding := strings_Join (xs @ ps)\<rparr>)"
    using tok decode_loop_snoc [of L c "xs @ ps" p] by simp
  also have "\<dots> = decode_loop L c xs (m'\<lparr>Encoding := strings_Join xs\<rparr>)"
    using snoc.IH [OF rest] by simp
  finally show ?case .
qed

subsection \<open>Nil data and empty chains\<close>

text \<open>
  C10. A message whose data is nil is returned unchanged and without error by
  \<open>withEncodedData\<close>, for every cipher; a message whose data is nil or whose encoding
  chain is the empty string is returned unchanged and without error by
  \<open>withDecodedData\<close>.
\<close>

theorem nil_data_unchanged:
  "(Data m = None \<longrightarrow> withEncodedData L cipher m = Inr m)
   \<and> (Data m = None \<or> Encoding m = [] \<longrightarrow> withDecodedData L cipher m = (m, None))"
  by (simp add: withEncodedData_def withDecodedData_def)

theorem nil_data_unchanged_witness:
  "withEncodedData go_stdlib (Some rev_cipher) (message_of None ''json'') = Inr (message_of None ''json'')
   \<and> withDecodedData go_stdlib (Some rev_cipher) (message_of None ''json'') = (message_of None ''json'', None)
   \<and> withDecodedData go_stdlib None (message_of (Some (GoString ''x'')) [])
       = (message_of (Some (GoString ''x'')) [], None)"
  using nil_data_unchanged [of "message_of None ''json''" go_stdlib "Some rev_cipher"]
    nil_data_unchanged [of "message_of (Some (GoString ''x'')) []" go_stdlib None]
  by (simp add: message_of_def)

subsection \<open>Encoding without a cipher\<close>

lemma json_Decoder_Token_compact:
  assumes "dropWhile json_space b = b"
  shows "(json_Decoder_Token b = Delim CHR ''['' \<or> json_Decoder_Token b = Delim CHR ''{'')
         \<longleftrightarrow> (prefix ''['' b \<or> prefix ''{'' b)"
  using assms by (cases b) (auto simp: json_Decoder_Token_def)

text \<open>
  C5 (as amended). For a message with non-nil data and no cipher, \<open>withEncodedData\<close>
  leaves a string that is valid UTF-8 unchanged and appends no token; a string that is
  not valid UTF-8 is treated as bytes; bytes are replaced by their base64 text and
  \<open>base64\<close> is appended to the chain; any other value is marshalled to JSON, and when
  the marshalled text (which \<open>json.Marshal\<close> emits without leading white space) begins
  with \<open>[\<close> or \<open>{\<close> it becomes the data and \<open>json\<close> is appended, otherwise the result
  is an error and no message; a value that cannot be marshalled gives an error too.
\<close>

theorem withEncodedData_no_cipher:
  assumes "Data m = Some d"
  shows "(\<forall>s. d = GoString s \<and> utf8_ValidString L s \<longrightarrow> withEncodedData L None m = Inr m)
    \<and> (\<forall>s. d = GoString s \<and> \<not> utf8_ValidString L s \<longrightarrow>
          withEncodedData L None m
            = Inr (m\<lparr>Data := Some (GoString (base64_EncodeToString L s)),
                     Encoding := mergeEncoding (Encoding m) ''base64''\<rparr>))
    \<and> (\<forall>b. d = GoBytes b \<longrightarrow>
          withEncodedData L None m
            = Inr (m\<lparr>Data := Some (GoString (base64_EncodeToString L b)),
                     Encoding := mergeEncoding (Encoding m) ''base64''\<rparr>))
    \<and> (\<forall>v b. d = GoValue v \<and> json_Marshal L v = Inr b \<and> dropWhile json_space b = b \<longrightarrow>
          withEncodedData L None m
            = (if prefix ''['' b \<or> prefix ''{'' b
               then Inr (m\<lparr>Data := Some (GoString b),
                           Encoding := mergeEncoding (Encoding m) ''json''\<rparr>)
               else Inl ErrNotObjectOrArray))
    \<and> (\<forall>v err. d = GoValue v \<and> json_Marshal L v = Inl err \<longrightarrow>
          withEncodedData L None m = Inl (ErrMarshal err))"
proof (intro conjI allI impI)
  fix s assume "d = GoString s \<and> utf8_ValidString L s"
  with assms show "withEncodedData L None m = Inr m"
    by (simp add: withEncodedData_def encode_payload_def)
next
  fix s assume "d = GoString s \<and> \<not> utf8_ValidString L s"
  with assms show "withEncodedData L None m
            = Inr (m\<lparr>Data := Some (GoString (base64_EncodeToString L s)),
                     Encoding := mergeEncoding (Encoding m) ''base64''\<rparr>)"
    by (simp add: withEncodedData_def encode_payload_def encBase64_def)
next
  fix b assume "d = GoBytes b"
  with assms show "withEncodedData L None m
            = Inr (m\<lparr>Data := Some (GoString (base64_EncodeToString L b)),
                     Encoding := mergeEncoding (Encoding m) ''base64''\<rparr>)"
    by (simp add: withEncodedData_def encode_payload_def encBase64_def)
next
  fix v b assume h: "d = GoValue v \<and> json_Marshal L v = Inr b \<and> dropWhile json_space b = b"
  then have tok: "(json_Decoder_Token b = Delim CHR ''['' \<or> json_Decoder_Token b = Delim CHR ''{'')
         \<longleftrightarrow> (prefix ''['' b \<or> prefix ''{'' b)"
    by (simp add: json_Decoder_Token_compact)
  show "withEncodedData L None m
            = (if prefix ''['' b \<or> prefix ''{'' b
               then Inr (m\<lparr>Data := Some (GoString b),
                           Encoding := mergeEncoding (Encoding m) ''json''\<rparr>)
               else Inl ErrNotObjectOrArray)"
  proof (cases "prefix ''['' b \<or> prefix ''{'' b")
    case True
    with tok have "json_Decoder_Token b = Delim CHR ''['' \<or> json_Decoder_Token b = Delim CHR ''{''"
      by simp
    with True assms h show ?thesis
      by (auto simp: withEncodedData_def encode_payload_def encJSON_def Let_def)
  next
    case False
    with tok have "json_Decoder_Token b \<noteq> Delim CHR ''['' \<and> json_Decoder_Token b \<noteq> Delim CHR ''{''"
      by simp
    with False assms h show ?thesis
      by (simp add: withEncodedData_def encode_payload_def Let_def)
  qed
next
  fix v err assume "d = GoValue v \<and> json_Marshal L v = Inl err"
  with assms show "withEncodedData L None m = Inl (ErrMarshal err)"
    by (simp add: withEncodedData_def encode_payload_def)
qed

theorem withEncodedData_no_cipher_witness:
  "withEncodedData go_stdlib None (message_of (Some (GoString ''hello'')) [])
     = Inr (message_of (Some (GoString ''hello'')) [])
   \<and> withEncodedData go_stdlib None (message_of (Some (GoBytes ''hi'')) [])
     = Inr (message_of (Some (GoString ''aGk='')) ''base64'')
   \<and> withEncodedData go_stdlib None (message_of (Some (GoValue ''{}'')) ''utf-8'')
     = Inr (message_of (Some (GoString ''{}'')) ''utf-8/json'')
   \<and> withEncodedData go_stdlib None (message_of (Some (GoValue ''42'')) [])
     = Inl ErrNotObjectOrArray"
proof -
  have v: "utf8_ValidString go_stdlib ''hello''" by code_simp
  have b: "base64_EncodeToString go_stdlib ''hi'' = ''aGk=''" by code_simp
  note t1 = withEncodedData_no_cipher [of "message_of (Some (GoString ''hello'')) []" "GoString ''hello''" go_stdlib]
  note t2 = withEncodedData_no_cipher [of "message_of (Some (GoBytes ''hi'')) []" "GoBytes ''hi''" go_stdlib]
  note t3 = withEncodedData_no_cipher [of "message_of (Some (GoValue ''{}'')) ''utf-8''" "GoValue ''{}''" go_stdlib]
  note t4 = withEncodedData_no_cipher [of "message_of (Some (GoValue ''42'')) []" "GoValue ''42''" go_stdlib]
  have 1: "withEncodedData go_stdlib None (message_of (Some (GoString ''hello'')) [])
     = Inr (message_of (Some (GoString ''hello'')) [])"
    using t1 v by (simp add: message_of_def)
  have 2: "withEncodedData go_stdlib None (message_of (Some (GoBytes ''hi'')) [])
     = Inr (message_of (Some (GoString ''aGk='')) ''base64'')"
    using t2 b by (simp add: message_of_def mergeEncoding_def)
  have 3: "withEncodedData go_stdlib None (message_of (Some (GoValue ''{}'')) ''utf-8'')
     = Inr (message_of (Some (GoString ''{}'')) ''utf-8/json'')"
    using t3 by (simp add: message_of_def mergeEncoding_def go_stdlib_def json_space_def)
  have 4: "withEncodedData go_stdlib None (message_of (Some (GoValue ''42'')) [])
     = Inl ErrNotObjectOrArray"
    using t4 by (simp add: message_of_def go_stdlib_def json_space_def)
  from 1 2 3 4 show ?thesis by simp
qed

text \<open>
  C5 as stated fails for string data that is not valid UTF-8: the two bytes C3 28 are
  replaced by their base64 text and \<open>base64\<close> is appended.
\<close>

theorem invalid_utf8_string_counterexample:
  "withEncodedData go_stdlib None (message_of (Some (GoString [CHR 0xC3, CHR 0x28])) [])
     = Inr (message_of (Some (GoString ''wyg='')) ''base64'')"
  by code_simp

subsection \<open>Unknown tokens\<close>

text \<open>
  C6 (as amended). Let the data of \<open>m\<close> be non-nil and its chain split into \<open>pre\<close>, a
  token \<open>t\<close> that is none of \<open>base64\<close>, \<open>utf-8\<close>, \<open>json\<close> and has no prefix \<open>cipher\<close>,
  and \<open>post\<close>; let the tokens of \<open>post\<close> decode without error, leaving \<open>m'\<close>. Then
  \<open>withDecodedData\<close> returns the error for the unknown token \<open>t\<close> together with \<open>m'\<close>
  (the data as decoded by the tokens to the right of \<open>t\<close>), its encoding being the
  unprocessed prefix of the chain that ends in \<open>t\<close>.
\<close>

theorem withDecodedData_unknown_token:
  assumes "Data m \<noteq> None" and "Encoding m \<noteq> []"
    and "strings_Split (Encoding m) = pre @ [t] @ post"
    and "t \<noteq> encBase64" and "t \<noteq> encUTF8" and "t \<noteq> encJSON" and "\<not> prefix encCipher t"
    and "decode_loop L cipher post m = (m', None)"
  shows "withDecodedData L cipher m
       = (m'\<lparr>Encoding := strings_Join (pre @ [t])\<rparr>, Some (ErrUnknownEncoding t))"
proof -
  have enc: "Encoding m = strings_Join ((pre @ [t]) @ post)"
    using strings_Join_Split [of "Encoding m"] assms(3) by simp
  from assms(1) obtain d where "Data m = Some d" by auto
  then have "withDecodedData L cipher m = decode_loop L cipher ((pre @ [t]) @ post) m"
    using assms(2,3) by (simp add: withDecodedData_def)
  also have "\<dots> = decode_loop L cipher ((pre @ [t]) @ post)
                     (m\<lparr>Encoding := strings_Join ((pre @ [t]) @ post)\<rparr>)"
    unfolding enc [symmetric] by simp
  also have "\<dots> = decode_loop L cipher (pre @ [t]) (m'\<lparr>Encoding := strings_Join (pre @ [t])\<rparr>)"
    using assms(8) by (rule decode_loop_suffix)
  also have "\<dots> = (m'\<lparr>Encoding := strings_Join (pre @ [t])\<rparr>, Some (ErrUnknownEncoding t))"
    using assms(4-7) by (simp add: decode_loop_snoc decode_token_def)
  finally show ?thesis .
qed


theorem withDecodedData_unknown_token_witness:
  "withDecodedData go_stdlib None (message_of (Some (GoString ''aGk='')) ''utf-8/foo/base64'')
     = (message_of (Some (GoBytes ''hi'')) ''utf-8/foo'', Some (ErrUnknownEncoding ''foo''))"
proof -
  have p: "decode_loop go_stdlib None [''base64''] (message_of (Some (GoString ''aGk='')) ''utf-8/foo/base64'')
     = (message_of (Some (GoBytes ''hi'')) [], None)"
    by code_simp
  show ?thesis
    using withDecodedData_unknown_token [of "message_of (Some (GoString ''aGk='')) ''utf-8/foo/base64''"
        "[''utf-8'']" "''foo''" "[''base64'']" go_stdlib None, OF _ _ _ _ _ _ _ p]
    by (simp add: message_of_def encBase64_def encUTF8_def encJSON_def encCipher_def)
qed

text \<open>
  C6 as stated fails in two ways: with nil data no error is returned at all, and when a
  token to the right of the unknown one fails, the error and the retained chain are
  those of the failing token.
\<close>

theorem unknown_token_counterexample:
  "withDecodedData go_stdlib None (message_of None ''foo'') = (message_of None ''foo'', None)
   \<and> withDecodedData go_stdlib None (message_of (Some (GoString ''!!!'')) ''foo/base64'')
     = (message_of (Some (GoString ''!!!'')) ''foo/base64'', Some (ErrBase64 ''illegal base64 data''))"
  by code_simp

subsection \<open>Round trip\<close>






















section \<open>Paginated results: properties\<close>

lemma path_Split_dir_segment:
  assumes "CHR ''/'' \<notin> set seg"
  shows "path_Split_dir (dir @ ''/'' @ seg) = dir @ ''/''"
proof -
  have "dropWhile (\<lambda>x. x \<noteq> CHR ''/'') (rev seg @ CHR ''/'' # rev dir) = CHR ''/'' # rev dir"
    using assms by (auto simp: dropWhile_append3)
  then show ?thesis by (simp add: path_Split_dir_def)
qed

lemma strings_IndexRune_absent: "c \<notin> set s \<Longrightarrow> strings_IndexRune s c = - 1"
  by (simp add: strings_IndexRune_def)

lemma takeWhile_until: "c \<notin> set p \<Longrightarrow> takeWhile (\<lambda>x. x \<noteq> c) (p @ c # q) = p"
  by (induction p) auto

lemma strings_IndexRune_first:
  "c \<notin> set p \<Longrightarrow> strings_IndexRune (p @ c # q) c = int (length p)"
  by (simp add: strings_IndexRune_def takeWhile_until)

lemma buildPath_query:
  assumes "CHR ''?'' \<notin> set p"
  shows "buildPath (p @ ''?'' @ q) L = path_Join [path_Dir p, L]"
    and "buildPath p L = path_Join [path_Dir p, L]"
  using assms strings_IndexRune_first [of "CHR ''?''" p q]
  by (simp_all add: buildPath_def strings_IndexRune_absent)

lemma goTo_links_basePath: "basePath (goTo_links p raws) = basePath p"
proof (induction raws arbitrary: p)
  case Nil
  show ?case by (simp add: goTo_links_def)
next
  case (Cons raw raws)
  have "goTo_links p (raw # raws) =
        goTo_links (case relLinkRegexp_FindStringSubmatch raw of
                None \<Rightarrow> p
              | Some (relPath, rel) \<Rightarrow>
                  (let path = path_Join [basePath p, relPath]
                   in if rel = ''first'' then p\<lparr>firstLink := path\<rparr>
                      else if rel = ''next'' then p\<lparr>nextLink := path\<rparr>
                      else p)) raws"
    by (simp add: goTo_links_def)
  then show ?case
    using Cons.IH by (auto split: option.splits simp: Let_def)
qed

lemma buildPath_takeWhile:
  "buildPath P L = path_Join [path_Dir (takeWhile (\<lambda>c. c \<noteq> CHR ''?'') P), L]"
proof (cases "CHR ''?'' \<in> set P")
  case True
  have "take (length (takeWhile (\<lambda>c. c \<noteq> CHR ''?'') P)) P = takeWhile (\<lambda>c. c \<noteq> CHR ''?'') P"
    by (rule takeWhile_eq_take [symmetric])
  with True show ?thesis by (simp add: buildPath_def strings_IndexRune_def)
next
  case False
  then have tw: "takeWhile (\<lambda>c. c \<noteq> CHR ''?'') P = P" by (auto simp: takeWhile_eq_all_conv)
  show ?thesis unfolding tw using False by (simp add: buildPath_def strings_IndexRune_def)
qed

lemma goTo_links_headers:
  "nextLink (goTo_links p raws)
     = (case paginationHeaders \<lparr>path = pth, links = raws\<rparr> ''next'' of
          None \<Rightarrow> nextLink p | Some L \<Rightarrow> path_Join [basePath p, L])
   \<and> firstLink (goTo_links p raws)
     = (case paginationHeaders \<lparr>path = pth, links = raws\<rparr> ''first'' of
          None \<Rightarrow> firstLink p | Some L \<Rightarrow> path_Join [basePath p, L])
   \<and> basePath (goTo_links p raws) = basePath p"
proof (induction raws rule: rev_induct)
  case Nil
  show ?case by (simp add: goTo_links_def paginationHeaders_def)
next
  case (snoc raw raws)
  define h where "h = paginationHeaders \<lparr>path = pth, links = raws\<rparr>"
  define p1 where "p1 = goTo_links p raws"
  have hs: "paginationHeaders \<lparr>path = pth, links = raws @ [raw]\<rparr>
        = (case relLinkRegexp_FindStringSubmatch raw of
             None \<Rightarrow> h | Some (url, rel) \<Rightarrow> h(rel \<mapsto> url))"
    by (simp add: paginationHeaders_def h_def split: option.split)
  have ps: "goTo_links p (raws @ [raw])
        = (case relLinkRegexp_FindStringSubmatch raw of
             None \<Rightarrow> p1
           | Some (relPath, rel) \<Rightarrow>
               (let path = path_Join [basePath p1, relPath]
                in if rel = ''first'' then p1\<lparr>firstLink := path\<rparr>
                   else if rel = ''next'' then p1\<lparr>nextLink := path\<rparr>
                   else p1))"
    unfolding goTo_links_def p1_def foldl_append foldl_Cons foldl_Nil by (rule refl)
  note ih = snoc.IH [folded h_def p1_def]
  show ?case
  proof (cases "relLinkRegexp_FindStringSubmatch raw")
    case None
    then show ?thesis unfolding hs ps using ih by simp
  next
    case (Some ur)
    obtain url rel where ur: "ur = (url, rel)" by (cases ur)
    show ?thesis unfolding hs ps Some ur using ih
      by (auto simp: Let_def)
  qed
qed

text \<open>
  C8 (as amended). \<open>PaginatedResult.Next\<close> resolves the \<open>next\<close> link \<open>L\<close> with
  \<open>buildPath\<close>, which joins \<open>L\<close> onto the directory of the current page's path with the
  query string stripped: for a path \<open>dir/seg?q\<close> the result is the join of \<open>dir/\<close>
  (cleaned) and \<open>L\<close>, whatever \<open>seg\<close> and \<open>q\<close> are. \<open>PaginatedResultNew\<close> resolves onto
  \<open>basePath\<close>, which \<open>load\<close> sets to the directory of the requested path and which no
  later page changes: after \<open>goTo\<close> has loaded a page, \<open>nextLink\<close> is the join of
  \<open>basePath\<close> and the page's \<open>next\<close> link (empty when the page has none) and
  \<open>firstLink\<close> the join of \<open>basePath\<close> and its \<open>first\<close> link (unchanged when it has
  none), the links being read from the \<open>Link\<close> headers as \<open>paginationHeaders\<close> reads
  them. This is the path that \<open>PaginatedResult.Next\<close> requests for the same page
  whenever the directory of the path the page was loaded from is \<open>basePath\<close>.
\<close>

theorem link_resolution:
  "(CHR ''?'' \<notin> set dir \<and> CHR ''?'' \<notin> set seg \<and> CHR ''/'' \<notin> set seg \<longrightarrow>
       buildPath (dir @ ''/'' @ seg @ ''?'' @ q) L = path_Join [path_Clean (dir @ ''/''), L]
     \<and> buildPath (dir @ ''/'' @ seg) L = path_Join [path_Clean (dir @ ''/''), L])
   \<and> (paginationHeaders pr ''next'' = Some L \<longrightarrow> Next_path pr = Some (buildPath (path pr) L))
   \<and> basePath (fst (load query p0 r)) = path_Dir (req_path r)
   \<and> basePath (fst (goTo query p link)) = basePath p
   \<and> (\<forall>resp. query link = Inr resp \<longrightarrow>
         nextLink (fst (goTo query p link))
           = (case paginationHeaders \<lparr>path = link, links = Header_Link resp\<rparr> ''next'' of
                None \<Rightarrow> [] | Some L' \<Rightarrow> path_Join [basePath p, L'])
       \<and> firstLink (fst (goTo query p link))
           = (case paginationHeaders \<lparr>path = link, links = Header_Link resp\<rparr> ''first'' of
                None \<Rightarrow> firstLink p | Some L' \<Rightarrow> path_Join [basePath p, L'])
       \<and> (path_Dir (takeWhile (\<lambda>c. c \<noteq> CHR ''?'') link) = basePath p \<longrightarrow>
            nextLink (fst (goTo query p link))
              = (case Next_path \<lparr>path = link, links = Header_Link resp\<rparr> of
                   None \<Rightarrow> [] | Some n \<Rightarrow> n)))"
proof (intro conjI impI allI)
  assume h: "CHR ''?'' \<notin> set dir \<and> CHR ''?'' \<notin> set seg \<and> CHR ''/'' \<notin> set seg"
  then have nq: "CHR ''?'' \<notin> set (dir @ ''/'' @ seg)" by simp
  have d: "path_Dir (dir @ ''/'' @ seg) = path_Clean (dir @ ''/'')"
    using h path_Split_dir_segment [of seg dir] by (simp add: path_Dir_def)
  show "buildPath (dir @ ''/'' @ seg @ ''?'' @ q) L = path_Join [path_Clean (dir @ ''/''), L]"
    using buildPath_query(1) [OF nq, of q L] d by simp
  show "buildPath (dir @ ''/'' @ seg) L = path_Join [path_Clean (dir @ ''/''), L]"
    using buildPath_query(2) [OF nq, of L] d by simp
next
  assume "paginationHeaders pr ''next'' = Some L"
  then show "Next_path pr = Some (buildPath (path pr) L)"
    by (simp add: Next_path_def)
next
  have g: "basePath (fst (goTo query p' link')) = basePath p'" for p' link'
    by (cases "query link'") (simp_all add: goTo_def goTo_links_basePath)
  show "basePath (fst (load query p0 r)) = path_Dir (req_path r)"
    by (simp add: load_def First_def g)
  show "basePath (fst (goTo query p link)) = basePath p"
    by (rule g)
next
  fix resp assume q: "query link = Inr resp"
  note hd = goTo_links_headers [where p = "p\<lparr>pres := Some resp, nextLink := []\<rparr>"
      and pth = link and raws = "Header_Link resp"]
  show n: "nextLink (fst (goTo query p link))
           = (case paginationHeaders \<lparr>path = link, links = Header_Link resp\<rparr> ''next'' of
                None \<Rightarrow> [] | Some L' \<Rightarrow> path_Join [basePath p, L'])"
    using q hd by (simp add: goTo_def split: option.split)
  show "firstLink (fst (goTo query p link))
           = (case paginationHeaders \<lparr>path = link, links = Header_Link resp\<rparr> ''first'' of
                None \<Rightarrow> firstLink p | Some L' \<Rightarrow> path_Join [basePath p, L'])"
    using q hd by (simp add: goTo_def split: option.split)
  assume b: "path_Dir (takeWhile (\<lambda>c. c \<noteq> CHR ''?'') link) = basePath p"
  show "nextLink (fst (goTo query p link))
              = (case Next_path \<lparr>path = link, links = Header_Link resp\<rparr> of
                   None \<Rightarrow> [] | Some n \<Rightarrow> n)"
    unfolding n Next_path_def using b
    by (simp add: buildPath_takeWhile split: option.split)
qed

theorem link_resolution_witness:
  "buildPath ''/channels/a/messages?limit=1'' ''./messages?page=2'' = ''/channels/a/messages?page=2''
   \<and> buildPath ''/channels/a/messages'' ''../b/messages'' = ''/channels/b/messages''
   \<and> nextLink (fst (goTo two_directories
        (zero_PaginatedResultNew\<lparr>basePath := ''/channels/a''\<rparr>) ''/channels/a/messages?limit=1''))
     = ''/channels/b/messages?page=2''
   \<and> firstLink (fst (goTo two_directories
        (zero_PaginatedResultNew\<lparr>basePath := ''/channels/a''\<rparr>) ''/channels/a/messages?limit=1''))
     = ''/channels/a/messages?limit=1''"
proof -
  have j: "path_Join [path_Clean ''/channels/a/'', ''./messages?page=2''] = ''/channels/a/messages?page=2''"
    "path_Join [path_Clean ''/channels/a/'', ''../b/messages''] = ''/channels/b/messages''"
    by code_simp+
  have hn: "paginationHeaders \<lparr>path = ''/channels/a/messages?limit=1'',
        links = [link_header ''./messages?limit=1'' ''first'', link_header ''../b/messages?page=2'' ''next'']\<rparr> ''next''
      = Some ''../b/messages?page=2''"
    by code_simp
  have hf: "paginationHeaders \<lparr>path = ''/channels/a/messages?limit=1'',
        links = [link_header ''./messages?limit=1'' ''first'', link_header ''../b/messages?page=2'' ''next'']\<rparr> ''first''
      = Some ''./messages?limit=1''"
    by code_simp
  have jn: "path_Join [''/channels/a'', ''../b/messages?page=2''] = ''/channels/b/messages?page=2''"
    "path_Join [''/channels/a'', ''./messages?limit=1''] = ''/channels/a/messages?limit=1''"
    by code_simp+
  from link_resolution [of "''/channels/a''" "''messages''" "''limit=1''" "''./messages?page=2''"]
  have 1: "buildPath ''/channels/a/messages?limit=1'' ''./messages?page=2'' = ''/channels/a/messages?page=2''"
    using j by simp
  from link_resolution [of "''/channels/a''" "''messages''" "''limit=1''" "''../b/messages''"]
  have 2: "buildPath ''/channels/a/messages'' ''../b/messages'' = ''/channels/b/messages''"
    using j by simp
  have q: "two_directories ''/channels/a/messages?limit=1''
      = Inr \<lparr> Header_Link = [link_header ''./messages?limit=1'' ''first'',
                                link_header ''../b/messages?page=2'' ''next''], Body = ''[]'' \<rparr>"
    by (simp add: two_directories_def)
  from link_resolution [where query = two_directories
      and p = "zero_PaginatedResultNew\<lparr>basePath := ''/channels/a''\<rparr>"
      and link = "''/channels/a/messages?limit=1''"]
  have 3: "nextLink (fst (goTo two_directories
        (zero_PaginatedResultNew\<lparr>basePath := ''/channels/a''\<rparr>) ''/channels/a/messages?limit=1''))
     = ''/channels/b/messages?page=2''"
    and 4: "firstLink (fst (goTo two_directories
        (zero_PaginatedResultNew\<lparr>basePath := ''/channels/a''\<rparr>) ''/channels/a/messages?limit=1''))
     = ''/channels/a/messages?limit=1''"
    using q hn hf jn by (simp_all add: zero_PaginatedResultNew_def)
  from 1 2 3 4 show ?thesis by simp
qed

text \<open>
  C8 as stated fails for \<open>PaginatedResultNew\<close>: once a link has led to a page in another
  directory, the next link is still joined onto the directory of the first path, where
  \<open>buildPath\<close> on the current page's path gives the other directory.
\<close>

theorem link_base_counterexample:
  "nextLink (fst (load two_directories zero_PaginatedResultNew
       \<lparr> req_path = ''/channels/a/messages'', req_params = ''limit=1'' \<rparr>))
     = ''/channels/b/messages?page=2''
   \<and> nextLink (fst (goTo two_directories
         (fst (load two_directories zero_PaginatedResultNew
            \<lparr> req_path = ''/channels/a/messages'', req_params = ''limit=1'' \<rparr>))
         ''/channels/b/messages?page=2''))
     = ''/channels/a/messages?page=3''
   \<and> buildPath ''/channels/b/messages?page=2'' ''./messages?page=3'' = ''/channels/b/messages?page=3''"
  by code_simp

end
